theory Spec2Isabelle
  imports Main "HOL-Library.AList" "HOL-Library.Char_ord" "HOL-Library.List_Lexorder"
begin

section \<open>The S3-like storage server of s3server.py\<close>

text \<open>
  The theory embeds src/s3server.py: the multipart uploader (\<^verbatim>\<open>_MultipartBuffer\<close>,
  \<^verbatim>\<open>_MultipartUploader\<close>, \<^verbatim>\<open>MultipartUploaderFactory\<close>), the object path computation
  (\<^verbatim>\<open>BaseRequestHandler._object_path\<close>), the bucket listing (\<^verbatim>\<open>BucketHandler.get\<close>) and the
  object handlers (\<^verbatim>\<open>ObjectHandler.put\<close>, \<^verbatim>\<open>delete\<close>, \<^verbatim>\<open>post\<close>).

  Conventions.
  \<^item> Python strings are \<open>string\<close>; Python integers are \<open>int\<close>.
  \<^item> A Python dictionary is an association list read with \<open>map_of\<close>; \<^verbatim>\<open>d[k] = v\<close> is
    \<open>AList.update k v d\<close>; \<^verbatim>\<open>k in d\<close> is \<open>map_of d k \<noteq> None\<close>.
  \<^item> An exception is a value of type \<open>error\<close>. A method that mutates \<^verbatim>\<open>self\<close> returns the
    object as it is when the method returns or raises, paired with \<open>None\<close> (normal return)
    or \<open>Some e\<close> (the exception raised).
  \<^item> \<^verbatim>\<open>hashlib.md5(s).hexdigest()\<close> is a parameter \<open>md5 :: string \<Rightarrow> string\<close>.
  \<^item> The locks only serialise the method bodies; the model is the sequential behaviour of
    each method.
\<close>

subsection \<open>Exceptions\<close>

text \<open>
  \<open>HTTPError status message\<close> is \<^verbatim>\<open>web.HTTPError(status, message)\<close>; the message is the
  format string's text without its formatted argument, and empty where the source gives none.
\<close>

datatype error =
    HTTPError nat string
  | KeyError
  | OSError
  | ValueError
  | TypeError
  | AttributeError

subsection \<open>File objects\<close>

text \<open>
  A file object opened with \<^verbatim>\<open>open(path, "w")\<close>: the file starts empty, and \<open>content\<close> is
  the bytes written through the handle so far, which is the byte content of the destination
  file. \<^verbatim>\<open>write\<close> and \<^verbatim>\<open>flush\<close> on a closed file raise \<^verbatim>\<open>ValueError\<close>; \<^verbatim>\<open>write(None)\<close> raises
  \<^verbatim>\<open>TypeError\<close>; \<^verbatim>\<open>close\<close> on a closed file is allowed.
\<close>

record pyfile =
  closed :: bool
  content :: string

definition open_w :: pyfile where
  "open_w = \<lparr>closed = False, content = []\<rparr>"

definition file_write :: "pyfile \<Rightarrow> string option \<Rightarrow> error + pyfile" where
  "file_write f d =
     (if closed f then Inl ValueError
      else case d of
             None \<Rightarrow> Inl TypeError
           | Some bs \<Rightarrow> Inr (f\<lparr>content := content f @ bs\<rparr>))"

definition file_flush :: "pyfile \<Rightarrow> error + pyfile" where
  "file_flush f = (if closed f then Inl ValueError else Inr f)"

definition file_close :: "pyfile \<Rightarrow> pyfile" where
  "file_close f = f\<lparr>closed := True\<rparr>"

subsection \<open>\<^verbatim>\<open>_MultipartBuffer\<close>\<close>

record multipart_buffer =
  data :: "string option"
  md5sum :: string

definition MultipartBuffer :: "(string \<Rightarrow> string) \<Rightarrow> string \<Rightarrow> multipart_buffer" where
  "MultipartBuffer md5 d = \<lparr>data = Some d, md5sum = md5 d\<rparr>"

definition forget_data :: "multipart_buffer \<Rightarrow> multipart_buffer" where
  "forget_data b = b\<lparr>data := None\<rparr>"

subsection \<open>\<^verbatim>\<open>_MultipartUploader\<close>\<close>

record uploader =
  path :: string
  upload_id :: string
  file_obj :: pyfile
  part_number :: int
  buffers :: "(int \<times> multipart_buffer) list"

text \<open>
  \<^verbatim>\<open>__init__\<close>: the object opens its destination file; that the path now exists in the
  file system is recorded by \<open>MultipartUploaderFactory\<close> below.
\<close>

definition MultipartUploader :: "string \<Rightarrow> string \<Rightarrow> uploader" where
  "MultipartUploader uid p =
     \<lparr>path = p, upload_id = uid, file_obj = open_w, part_number = 1, buffers = []\<rparr>"

text \<open>
  \<^verbatim>\<open>trigger_write_completion\<close>: the \<^verbatim>\<open>while\<close> loop. Each round keeps the keys of the
  dictionary and moves the cursor up by one, so the number of keys at or above the cursor
  decreases.
\<close>

function trigger_write_completion :: "uploader \<Rightarrow> uploader \<times> error option" where
  "trigger_write_completion u =
     (case map_of (buffers u) (part_number u) of
        None \<Rightarrow> (u, None)
      | Some b \<Rightarrow>
          (case file_write (file_obj u) (data b) of
             Inl e \<Rightarrow> (u, Some e)
           | Inr f \<Rightarrow>
               trigger_write_completion
                 (u\<lparr>file_obj := f,
                    buffers := AList.update (part_number u) (forget_data b) (buffers u),
                    part_number := part_number u + 1\<rparr>)))"
  by pat_completeness auto

termination trigger_write_completion
proof (relation "measure (\<lambda>u. card {i \<in> fst ` set (buffers u). part_number u \<le> i})", goal_cases)
  case 1
  show ?case by simp
next
  case (2 u b f)
  let ?k = "part_number u" and ?xs = "buffers u"
  from 2(1) have kin: "?k \<in> fst ` set ?xs"
    by (metis domI dom_map_of_conv_image_fst)
  then have same: "fst ` set (AList.update ?k (forget_data b) ?xs) = fst ` set ?xs"
    by (auto simp: dom_update)
  have "{i \<in> fst ` set ?xs. ?k + 1 \<le> i} \<subseteq> {i \<in> fst ` set ?xs. ?k \<le> i}"
    by auto
  moreover have "?k \<in> {i \<in> fst ` set ?xs. ?k \<le> i}" "?k \<notin> {i \<in> fst ` set ?xs. ?k + 1 \<le> i}"
    using kin by simp_all
  ultimately have "{i \<in> fst ` set ?xs. ?k + 1 \<le> i} \<subset> {i \<in> fst ` set ?xs. ?k \<le> i}"
    by blast
  then have "card {i \<in> fst ` set ?xs. ?k + 1 \<le> i} < card {i \<in> fst ` set ?xs. ?k \<le> i}"
    by (intro psubset_card_mono) simp_all
  then show ?case
    by (simp add: same)
qed

declare trigger_write_completion.simps [simp del]

text \<open>\<^verbatim>\<open>write\<close>: the duplicate check raises before anything is stored.\<close>

definition "write" :: "(string \<Rightarrow> string) \<Rightarrow> uploader \<Rightarrow> int \<Rightarrow> string \<Rightarrow> uploader \<times> error option" where
  "write md5 u pn d =
     (case map_of (buffers u) pn of
        Some b \<Rightarrow> (u, Some (HTTPError 400 ''PartNumber already received''))
      | None \<Rightarrow>
          trigger_write_completion
            (u\<lparr>buffers := AList.update pn (MultipartBuffer md5 d) (buffers u)\<rparr>))"

text \<open>
  A sequence of \<^verbatim>\<open>write\<close> calls on one uploader, in the order given; it stops at the first
  call that raises.
\<close>

fun write_all :: "(string \<Rightarrow> string) \<Rightarrow> uploader \<Rightarrow> (int \<times> string) list \<Rightarrow> uploader \<times> error option" where
  "write_all md5 u [] = (u, None)"
| "write_all md5 u ((pn, d) # ws) =
     (case write md5 u pn d of
        (u', None) \<Rightarrow> write_all md5 u' ws
      | (u', Some e) \<Rightarrow> (u', Some e))"

subsection \<open>Strings and \<^verbatim>\<open>os.path\<close>\<close>

text \<open>
  The functions of Python's \<^verbatim>\<open>posixpath\<close> that the server calls, after the library's
  source. \<open>startswith s p\<close> is \<^verbatim>\<open>s.startswith(p)\<close>, \<open>split_slash s\<close> is \<^verbatim>\<open>s.split('/')\<close>,
  \<open>join_slash cs\<close> is \<^verbatim>\<open>'/'.join(cs)\<close>.
\<close>

definition startswith :: "string \<Rightarrow> string \<Rightarrow> bool" where
  "startswith s p = (take (length p) s = p)"

definition endswith :: "string \<Rightarrow> string \<Rightarrow> bool" where
  "endswith s p = (drop (length s - length p) s = p)"

fun split_slash :: "string \<Rightarrow> string list" where
  "split_slash [] = [[]]"
| "split_slash (c # cs) =
     (if c = CHR ''/'' then [] # split_slash cs
      else case split_slash cs of
             x # xs \<Rightarrow> (c # x) # xs
           | [] \<Rightarrow> [[c]])"

fun join_slash :: "string list \<Rightarrow> string" where
  "join_slash [] = []"
| "join_slash [x] = x"
| "join_slash (x # y # ys) = x @ ''/'' @ join_slash (y # ys)"

text \<open>
  \<^verbatim>\<open>os.path.join(a, *p)\<close>: \<open>join_step\<close> is one round of its loop over \<^verbatim>\<open>p\<close>. A component that
  starts with a slash discards everything before it.
\<close>

definition join_step :: "string \<Rightarrow> string \<Rightarrow> string" where
  "join_step p b =
     (if startswith b ''/'' then b
      else if p = [] \<or> endswith p ''/'' then p @ b
      else p @ ''/'' @ b)"

definition join :: "string \<Rightarrow> string list \<Rightarrow> string" where
  "join a ps = foldl join_step a ps"

definition isabs :: "string \<Rightarrow> bool" where
  "isabs p = startswith p ''/''"

text \<open>
  \<^verbatim>\<open>os.path.normpath\<close>: \<open>norm_step\<close> is one round of its loop over the components, with
  \<^verbatim>\<open>new_comps\<close> as accumulator; \<open>initial_slashes\<close> is 0, 1 or 2 as in the library (exactly two
  leading slashes are kept).
\<close>

definition initial_slashes :: "string \<Rightarrow> nat" where
  "initial_slashes p =
     (if startswith p ''/'' then
        (if startswith p ''//'' \<and> \<not> startswith p ''///'' then 2 else 1)
      else 0)"

definition norm_step :: "nat \<Rightarrow> string list \<Rightarrow> string \<Rightarrow> string list" where
  "norm_step init new_comps c =
     (if c = [] \<or> c = ''.'' then new_comps
      else if c \<noteq> ''..'' \<or> (init = 0 \<and> new_comps = []) \<or>
              (new_comps \<noteq> [] \<and> last new_comps = ''..'')
           then new_comps @ [c]
      else if new_comps \<noteq> [] then butlast new_comps
      else new_comps)"

definition normpath :: "string \<Rightarrow> string" where
  "normpath p =
     (if p = [] then ''.''
      else let init = initial_slashes p;
               comps = foldl (norm_step init) [] (split_slash p);
               r = replicate init CHR ''/'' @ join_slash comps
           in if r = [] then ''.'' else r)"

text \<open>\<^verbatim>\<open>os.path.abspath\<close>; \<open>cwd\<close> is the value of \<^verbatim>\<open>os.getcwd()\<close>.\<close>

definition abspath :: "string \<Rightarrow> string \<Rightarrow> string" where
  "abspath cwd p = normpath (if isabs p then p else join cwd [p])"

text \<open>
  \<^verbatim>\<open>os.path.dirname\<close>: the part up to and including the last slash, with trailing slashes
  removed unless it consists of slashes only.
\<close>

definition dirname :: "string \<Rightarrow> string" where
  "dirname p =
     (let head = rev (dropWhile (\<lambda>c. c \<noteq> CHR ''/'') (rev p))
      in if head \<noteq> [] \<and> head \<noteq> replicate (length head) CHR ''/''
         then rev (dropWhile (\<lambda>c. c = CHR ''/'') (rev head))
         else head)"

text \<open>
  Python truth value of a request argument that is \<^verbatim>\<open>None\<close> or a string, and \<^verbatim>\<open>int(s)\<close> on a
  string: surrounding white space, an optional sign, one or more decimal digits; anything
  else raises \<^verbatim>\<open>ValueError\<close>.
\<close>

definition truthy :: "string option \<Rightarrow> bool" where
  "truthy a = (case a of None \<Rightarrow> False | Some s \<Rightarrow> s \<noteq> [])"

definition is_space :: "char \<Rightarrow> bool" where
  "is_space c = (c \<in> set [CHR '' '', CHR 0x09, CHR 0x0A, CHR 0x0B, CHR 0x0C, CHR 0x0D])"

definition is_digit :: "char \<Rightarrow> bool" where
  "is_digit c = (c \<in> set ''0123456789'')"

definition digit_value :: "char \<Rightarrow> int" where
  "digit_value c = int (of_char c) - 48"

definition py_int :: "string \<Rightarrow> error + int" where
  "py_int s =
     (let t = rev (dropWhile is_space (rev (dropWhile is_space s)));
          (neg, ds) = (case t of
                         [] \<Rightarrow> (False, [])
                       | c # r \<Rightarrow> if c = CHR ''-'' then (True, r)
                                  else if c = CHR ''+'' then (False, r)
                                  else (False, t))
      in if ds = [] \<or> \<not> list_all is_digit ds then Inl ValueError
         else let n = foldl (\<lambda>a c. 10 * a + digit_value c) 0 ds
              in Inr (if neg then - n else n))"

subsection \<open>\<^verbatim>\<open>S3Application\<close> and \<^verbatim>\<open>_object_path\<close>\<close>

record application =
  directory :: string
  bucket_depth :: int

definition S3Application :: "string \<Rightarrow> string \<Rightarrow> int \<Rightarrow> application" where
  "S3Application cwd root_directory depth =
     \<lparr>directory = abspath cwd root_directory, bucket_depth = depth\<rparr>"

text \<open>
  \<^verbatim>\<open>_object_path\<close>: without sharding the joined path is normalised by \<^verbatim>\<open>abspath\<close>; with
  sharding only the bucket directory is, and the digest prefixes \<^verbatim>\<open>hash[:2 * (i + 1)]\<close> and the
  object name are joined to it as they are.
\<close>

definition object_path :: "(string \<Rightarrow> string) \<Rightarrow> string \<Rightarrow> application \<Rightarrow> string \<Rightarrow> string \<Rightarrow> string" where
  "object_path md5 cwd app bucket object_name =
     (if bucket_depth app < 1 then
        abspath cwd (join (directory app) [bucket, object_name])
      else
        let hash = md5 object_name;
            p0 = abspath cwd (join (directory app) [bucket]);
            p = foldl (\<lambda>p i. join p [take (2 * (i + 1)) hash]) p0 [0..<nat (bucket_depth app)]
        in join p [object_name])"

subsection \<open>The registry, the file system and \<^verbatim>\<open>MultipartUploaderFactory\<close>\<close>

text \<open>
  The state outside a request: the global dictionary \<^verbatim>\<open>multipart_uploaders\<close> and the file
  system, which is the list of paths of regular files and the list of paths of directories;
  the content of a file under upload is kept in its file object.

  Every uploader object is created by the factory and referenced from exactly one registry
  entry, and a handler reaches it through the registry only; so a handler that has called a
  method on the object stores the object back under its id (\<open>store_object\<close>), which is what
  the in-place mutation of the Python object amounts to.
\<close>

record world =
  multipart_uploaders :: "(string \<times> uploader) list"
  files :: "string list"
  dirs :: "string list"

definition isdir :: "world \<Rightarrow> string \<Rightarrow> bool" where
  "isdir w p = (p \<in> set (dirs w))"

definition isfile :: "world \<Rightarrow> string \<Rightarrow> bool" where
  "isfile w p = (p \<in> set (files w))"

definition exists_path :: "world \<Rightarrow> string \<Rightarrow> bool" where
  "exists_path w p = (isdir w p \<or> isfile w p)"

text \<open>
  \<^verbatim>\<open>os.makedirs\<close> is taken in the case where it succeeds, and the state keeps the directory
  asked for. The parents that the library function creates with it are not recorded, and
  its failure, an \<^verbatim>\<open>OSError\<close> when a parent is a regular file, has no case here: what is
  stated of \<^verbatim>\<open>put\<close> and \<^verbatim>\<open>post\<close> for a path whose directory does not exist is stated of the
  requests in which the directory can be created.
\<close>

definition makedirs :: "world \<Rightarrow> string \<Rightarrow> world" where
  "makedirs w p = w\<lparr>dirs := List.insert p (dirs w)\<rparr>"

definition store_object :: "uploader \<Rightarrow> world \<Rightarrow> world" where
  "store_object u w =
     (case map_of (multipart_uploaders w) (upload_id u) of
        None \<Rightarrow> w
      | Some _ \<Rightarrow> w\<lparr>multipart_uploaders := AList.update (upload_id u) u (multipart_uploaders w)\<rparr>)"

definition MultipartUploaderFactory :: "world \<Rightarrow> string \<Rightarrow> string option \<Rightarrow> uploader option \<times> world" where
  "MultipartUploaderFactory w uid p =
     (case map_of (multipart_uploaders w) uid of
        Some m \<Rightarrow> (Some m, w)
      | None \<Rightarrow>
          if \<not> truthy p then (None, w)
          else let m = MultipartUploader uid (the p)
               in (Some m,
                   w\<lparr>multipart_uploaders := AList.update uid m (multipart_uploaders w),
                     files := List.insert (the p) (files w)\<rparr>))"

text \<open>
  \<^verbatim>\<open>close\<close> and \<^verbatim>\<open>abort\<close> of \<^verbatim>\<open>_MultipartUploader\<close>. \<^verbatim>\<open>del multipart_uploaders[self.upload_id]\<close>
  raises \<^verbatim>\<open>KeyError\<close> when the id is not a key (\<open>registry_del\<close>); \<^verbatim>\<open>os.unlink\<close> raises
  \<^verbatim>\<open>OSError\<close> when the file does not exist.
\<close>

definition registry_del :: "(string \<times> uploader) list \<Rightarrow> string \<Rightarrow> error + (string \<times> uploader) list" where
  "registry_del reg uid =
     (case map_of reg uid of
        None \<Rightarrow> Inl KeyError
      | Some _ \<Rightarrow> Inr (AList.delete uid reg))"

definition close :: "uploader \<Rightarrow> world \<Rightarrow> uploader \<times> world \<times> error option" where
  "close u w =
     (case trigger_write_completion u of
        (u1, Some e) \<Rightarrow> (u1, w, Some e)
      | (u1, None) \<Rightarrow>
          (case file_flush (file_obj u1) of
             Inl e \<Rightarrow> (u1, w, Some e)
           | Inr f \<Rightarrow>
               let u2 = u1\<lparr>file_obj := file_close f\<rparr>
               in case registry_del (multipart_uploaders w) (upload_id u2) of
                    Inl e \<Rightarrow> (u2, w, Some e)
                  | Inr reg \<Rightarrow> (u2, w\<lparr>multipart_uploaders := reg\<rparr>, None)))"

definition abort :: "uploader \<Rightarrow> world \<Rightarrow> uploader \<times> world \<times> error option" where
  "abort u w =
     (let u1 = u\<lparr>file_obj := file_close (file_obj u)\<rparr>
      in if \<not> isfile w (path u1) then (u1, w, Some OSError)
         else let w1 = w\<lparr>files := removeAll (path u1) (files w)\<rparr>
              in case registry_del (multipart_uploaders w1) (upload_id u1) of
                   Inl e \<Rightarrow> (u1, w1, Some e)
                 | Inr reg \<Rightarrow> (u1, w1\<lparr>multipart_uploaders := reg\<rparr>, None))"

subsection \<open>\<^verbatim>\<open>ObjectHandler\<close>\<close>

text \<open>
  The handlers take the arguments of the request as values: \<open>bucket\<close> and \<open>object_name\<close> are
  the groups of the route (\<open>object_name\<close> after \<^verbatim>\<open>urllib.unquote\<close> in \<^verbatim>\<open>put\<close> and \<^verbatim>\<open>delete\<close>),
  \<open>part_arg\<close> and \<open>upload_arg\<close> are what \<^verbatim>\<open>_get_part_number\<close> and \<^verbatim>\<open>_get_upload_id\<close> return
  (\<open>None\<close> or a string), \<open>body\<close> is \<^verbatim>\<open>self.request.body\<close>, \<open>gen_id\<close> is the value of
  \<^verbatim>\<open>uuid.uuid4().hex\<close>. A handler returns the state after the request and either the
  exception it raised or what it puts in the response.

  \<open>checked_object_path\<close> is the passage that \<^verbatim>\<open>put\<close> (lines 246 to 253) and \<^verbatim>\<open>post\<close> (lines 338
  to 345) share word for word: the bucket directory must lie under the storage root and
  exist, the object path must start with the bucket directory and not be a directory.
\<close>

definition checked_object_path :: "(string \<Rightarrow> string) \<Rightarrow> string \<Rightarrow> application \<Rightarrow> world \<Rightarrow> string \<Rightarrow> string \<Rightarrow> error + string" where
  "checked_object_path md5 cwd app w bucket object_name =
     (let bucket_dir = abspath cwd (join (directory app) [bucket])
      in if \<not> startswith bucket_dir (directory app) \<or> \<not> isdir w bucket_dir
         then Inl (HTTPError 404 [])
         else let p = object_path md5 cwd app bucket object_name
              in if \<not> startswith p bucket_dir \<or> isdir w p
                 then Inl (HTTPError 403 [])
                 else Inr p)"

definition ensure_directory :: "world \<Rightarrow> string \<Rightarrow> world" where
  "ensure_directory w p =
     (let d = dirname p in if \<not> exists_path w d then makedirs w d else w)"

text \<open>
  \<^verbatim>\<open>put\<close>: the result is the value of the \<^verbatim>\<open>ETag\<close> header. With a part number and an upload
  id it is the checksum stored for the part, \<^verbatim>\<open>object_file.buffers[part_number].md5sum\<close>.
\<close>

definition put :: "(string \<Rightarrow> string) \<Rightarrow> string \<Rightarrow> application \<Rightarrow> world \<Rightarrow> string \<Rightarrow> string \<Rightarrow>
                     string option \<Rightarrow> string option \<Rightarrow> string \<Rightarrow> world \<times> (error + string)" where
  "put md5 cwd app w bucket object_name part_arg upload_arg body =
     (case checked_object_path md5 cwd app w bucket object_name of
        Inl e \<Rightarrow> (w, Inl e)
      | Inr p \<Rightarrow>
          let w1 = ensure_directory w p
          in if truthy part_arg \<and> truthy upload_arg then
               (case py_int (the part_arg) of
                  Inl e \<Rightarrow> (w1, Inl e)
                | Inr pn \<Rightarrow>
                    (case MultipartUploaderFactory w1 (the upload_arg) None of
                       (None, w2) \<Rightarrow> (w2, Inl (HTTPError 404 ''No such upload ID''))
                     | (Some object_file, w2) \<Rightarrow>
                         (case write md5 object_file pn body of
                            (u, Some e) \<Rightarrow> (store_object u w2, Inl e)
                          | (u, None) \<Rightarrow>
                              (case map_of (buffers u) pn of
                                 None \<Rightarrow> (store_object u w2, Inl KeyError)
                               | Some b \<Rightarrow> (store_object u w2, Inr (md5sum b))))))
             else (w1\<lparr>files := List.insert p (files w1)\<rparr>, Inr ''ignored''))"

text \<open>\<^verbatim>\<open>delete\<close>: the result is the status set, 204.\<close>

definition delete :: "(string \<Rightarrow> string) \<Rightarrow> string \<Rightarrow> application \<Rightarrow> world \<Rightarrow> string \<Rightarrow> string \<Rightarrow>
                        string option \<Rightarrow> world \<times> (error + nat)" where
  "delete md5 cwd app w bucket object_name upload_arg =
     (if truthy upload_arg then
        (case MultipartUploaderFactory w (the upload_arg) None of
           (None, w1) \<Rightarrow> (w1, Inl (HTTPError 404 ''No such upload ID''))
         | (Some object_file, w1) \<Rightarrow>
             (case abort object_file w1 of
                (u, w2, Some e) \<Rightarrow> (store_object u w2, Inl e)
              | (u, w2, None) \<Rightarrow> (store_object u w2, Inr 204)))
      else
        let p = object_path md5 cwd app bucket object_name
        in if \<not> startswith p (directory app) \<or> \<not> isfile w p
           then (w, Inl (HTTPError 404 []))
           else (w\<lparr>files := removeAll p (files w)\<rparr>, Inr 204))"

text \<open>
  \<^verbatim>\<open>post\<close>. Completing an upload answers with the list comprehension over
  \<^verbatim>\<open>range(1, object_file.part_number)\<close>, each element the part number and
  \<^verbatim>\<open>object_file.buffers[pn].md5sum\<close> (\<open>part_list\<close>; a missing key raises \<^verbatim>\<open>KeyError\<close>).
  Initiating an upload answers with the bucket, the key and the upload id.
\<close>

datatype post_response =
    CompleteMultipartUpload "(int \<times> string) list"
  | InitiateMultipartUploadResult string string string

fun part_list :: "(int \<times> multipart_buffer) list \<Rightarrow> int list \<Rightarrow> error + (int \<times> string) list" where
  "part_list bufs [] = Inr []"
| "part_list bufs (pn # pns) =
     (case map_of bufs pn of
        None \<Rightarrow> Inl KeyError
      | Some b \<Rightarrow>
          (case part_list bufs pns of
             Inl e \<Rightarrow> Inl e
           | Inr r \<Rightarrow> Inr ((pn, md5sum b) # r)))"

definition post :: "(string \<Rightarrow> string) \<Rightarrow> string \<Rightarrow> application \<Rightarrow> world \<Rightarrow> string \<Rightarrow> string \<Rightarrow>
                      string option \<Rightarrow> string \<Rightarrow> string \<Rightarrow> world \<times> (error + post_response)" where
  "post md5 cwd app w bucket object_name upload_arg uri gen_id =
     (if truthy upload_arg then
        (case MultipartUploaderFactory w (the upload_arg) None of
           (None, w1) \<Rightarrow> (w1, Inl (HTTPError 404 ''No such upload ID''))
         | (Some object_file, w1) \<Rightarrow>
             (case close object_file w1 of
                (u, w2, Some e) \<Rightarrow> (store_object u w2, Inl e)
              | (u, w2, None) \<Rightarrow>
                  (case part_list (buffers u) [1..part_number u - 1] of
                     Inl e \<Rightarrow> (store_object u w2, Inl e)
                   | Inr parts \<Rightarrow> (store_object u w2, Inr (CompleteMultipartUpload parts)))))
      else if \<not> endswith uri ''?uploads'' \<and> \<not> endswith uri ''?uploads=''
        then (w, Inl (HTTPError 400 ''No ?uploads parameter specified''))
      else
        (case checked_object_path md5 cwd app w bucket object_name of
           Inl e \<Rightarrow> (w, Inl e)
         | Inr p \<Rightarrow>
             let w1 = ensure_directory w p
             in case MultipartUploaderFactory w1 gen_id (Some p) of
                  (None, w2) \<Rightarrow> (w2, Inl AttributeError)
                | (Some m, w2) \<Rightarrow>
                    (w2, Inr (InitiateMultipartUploadResult bucket object_name (upload_id m)))))"

subsection \<open>\<^verbatim>\<open>BucketHandler.get\<close>\<close>

text \<open>
  \<^verbatim>\<open>bisect.bisect_right(a, x, lo)\<close> and \<^verbatim>\<open>bisect.bisect_left(a, x, lo)\<close> with \<^verbatim>\<open>hi = len(a)\<close>: the
  loops of the library. \<^verbatim>\<open>mid\<close> stays below \<^verbatim>\<open>hi\<close>, which starts at the length of the list and
  only decreases, so \<^verbatim>\<open>a[mid]\<close> is always in range.
\<close>

function bisect_right_loop :: "'a::linorder list \<Rightarrow> 'a \<Rightarrow> nat \<Rightarrow> nat \<Rightarrow> nat" where
  "bisect_right_loop a x lo hi =
     (if lo < hi then
        let mid = (lo + hi) div 2
        in if x < a ! mid then bisect_right_loop a x lo mid
           else bisect_right_loop a x (mid + 1) hi
      else lo)"
  by pat_completeness auto
termination
  by (relation "measure (\<lambda>(a, x, lo, hi). hi - lo)") auto

function bisect_left_loop :: "'a::linorder list \<Rightarrow> 'a \<Rightarrow> nat \<Rightarrow> nat \<Rightarrow> nat" where
  "bisect_left_loop a x lo hi =
     (if lo < hi then
        let mid = (lo + hi) div 2
        in if a ! mid < x then bisect_left_loop a x (mid + 1) hi
           else bisect_left_loop a x lo mid
      else lo)"
  by pat_completeness auto
termination
  by (relation "measure (\<lambda>(a, x, lo, hi). hi - lo)") auto

declare bisect_right_loop.simps [simp del]
declare bisect_left_loop.simps [simp del]

definition bisect_right :: "'a::linorder list \<Rightarrow> 'a \<Rightarrow> nat \<Rightarrow> nat" where
  "bisect_right a x lo = bisect_right_loop a x lo (length a)"

definition bisect_left :: "'a::linorder list \<Rightarrow> 'a \<Rightarrow> nat \<Rightarrow> nat" where
  "bisect_left a x lo = bisect_left_loop a x lo (length a)"

text \<open>
  The number of characters removed from a path found by the walk (\<open>skip\<close>), and the path with
  them removed, \<^verbatim>\<open>n[skip:]\<close>.
\<close>

definition skip :: "application \<Rightarrow> string \<Rightarrow> nat" where
  "skip app p =
     foldl (\<lambda>s i. s + (2 * (i + 1) + 1)) (length p + 1) [0..<nat (bucket_depth app)]"

definition strip_shard_prefix :: "application \<Rightarrow> string \<Rightarrow> string \<Rightarrow> string" where
  "strip_shard_prefix app bucket_dir n = drop (skip app bucket_dir) n"

text \<open>
  The start position, from the two binary searches on the sorted names, and the loop over
  \<^verbatim>\<open>object_names[start_pos:]\<close>, whose state is \<^verbatim>\<open>contents\<close> (the keys collected), \<^verbatim>\<open>marker\<close> and
  \<^verbatim>\<open>truncated\<close>. Of an entry of \<^verbatim>\<open>contents\<close> the model keeps the key; the size and the
  modification time that the handler adds from \<^verbatim>\<open>os.stat\<close> unless \<^verbatim>\<open>terse\<close> is set are left out.
\<close>

definition start_pos :: "string list \<Rightarrow> string \<Rightarrow> string \<Rightarrow> nat" where
  "start_pos object_names marker prefix =
     (let s0 = 0;
          s1 = (if marker \<noteq> [] then bisect_right object_names marker s0 else s0)
      in if prefix \<noteq> [] then bisect_left object_names prefix s1 else s1)"

fun list_loop :: "string \<Rightarrow> int \<Rightarrow> string list \<Rightarrow> string list \<Rightarrow> string \<Rightarrow> string list \<times> string \<times> bool" where
  "list_loop prefix max_keys [] contents marker = (contents, marker, False)"
| "list_loop prefix max_keys (object_name # rest) contents marker =
     (if \<not> startswith object_name prefix then (contents, marker, False)
      else if max_keys \<le> int (length contents) then (contents, marker, True)
      else list_loop prefix max_keys rest (contents @ [object_name]) object_name)"

text \<open>
  \<open>list_keys\<close> is the handler from \<^verbatim>\<open>object_names.sort()\<close> on, given the names found in the
  bucket: it returns \<^verbatim>\<open>Contents\<close> (the keys), \<^verbatim>\<open>Marker\<close> and \<^verbatim>\<open>IsTruncated\<close>.
\<close>

definition list_keys :: "string list \<Rightarrow> string \<Rightarrow> string \<Rightarrow> int \<Rightarrow> string list \<times> string \<times> bool" where
  "list_keys object_names prefix marker max_keys =
     (let sorted_names = sort object_names;
          s = start_pos sorted_names marker prefix
      in list_loop prefix max_keys (drop s sorted_names) [] marker)"

text \<open>
  The handler itself. \<^verbatim>\<open>os.walk\<close> yields the regular files below the bucket directory, which
  here are the paths of files that extend the directory's path by a slash and more.
\<close>

definition walk :: "world \<Rightarrow> string \<Rightarrow> string list" where
  "walk w p = filter (\<lambda>f. startswith f (p @ ''/'')) (files w)"

definition bucket_get :: "string \<Rightarrow> application \<Rightarrow> world \<Rightarrow> string \<Rightarrow> string \<Rightarrow> string \<Rightarrow> int \<Rightarrow>
                            error + string list \<times> string \<times> bool" where
  "bucket_get cwd app w bucket_name prefix marker max_keys =
     (let p = abspath cwd (join (directory app) [bucket_name])
      in if \<not> startswith p (directory app) \<or> \<not> isdir w p then Inl (HTTPError 404 [])
         else let object_names = map (strip_shard_prefix app p) (walk w p)
              in Inr (list_keys object_names prefix marker max_keys))"

subsection \<open>What a session has received\<close>

text \<open>
  The state of an uploader described from the calls it has accepted: \<open>ws\<close> lists the part
  numbers and data of the accepted \<^verbatim>\<open>write\<close> calls. The file is open, the cursor is at least
  1, the dictionary holds one buffer for each accepted part, with its data forgotten exactly
  when its number lies between 1 and the cursor, every number from 1 up to the cursor has
  been received, and the file holds the data of those parts in order. \<open>session_ok\<close> adds that
  the part at the cursor has not been received, as is the case after each call.
\<close>

definition session_inv :: "(string \<Rightarrow> string) \<Rightarrow> (int \<times> string) list \<Rightarrow> uploader \<Rightarrow> bool" where
  "session_inv md5 ws u \<longleftrightarrow>
     \<not> closed (file_obj u) \<and> 1 \<le> part_number u \<and> distinct (map fst ws) \<and>
     (\<forall>p. map_of (buffers u) p =
            map_option (\<lambda>d. \<lparr>data = (if 1 \<le> p \<and> p < part_number u then None else Some d),
                              md5sum = md5 d\<rparr>) (map_of ws p)) \<and>
     (\<forall>p. 1 \<le> p \<and> p < part_number u \<longrightarrow> map_of ws p \<noteq> None) \<and>
     content (file_obj u) = concat (map (\<lambda>p. the (map_of ws p)) [1..part_number u - 1])"

definition session_ok :: "(string \<Rightarrow> string) \<Rightarrow> (int \<times> string) list \<Rightarrow> uploader \<Rightarrow> bool" where
  "session_ok md5 ws u \<longleftrightarrow> session_inv md5 ws u \<and> map_of ws (part_number u) = None"


subsection \<open>A digest for the concrete instances\<close>

text \<open>
  The general statements hold for every function \<open>md5\<close>. The concrete instances use this
  table of MD5 hexadecimal digests: it holds every string whose digest a concrete instance
  computes, and gives the digest of the empty string for a string that is not listed.
\<close>

definition md5_table :: "string \<Rightarrow> string" where
  "md5_table s =
     (if s = ''a'' then ''0cc175b9c0f1b6a831c399e269772661''
      else if s = ''A'' then ''7fc56270e7a70fa81a5935b72eacbe29''
      else if s = ''B'' then ''9d5ed678fe57bcca610140957afab571''
      else if s = ''X'' then ''02129bb861061d1a052c592e2dc6b383''
      else if s = ''x/y'' then ''5c31a2fad817e4698c5e6a27fc0bf191''
      else if s = ''abc'' then ''900150983cd24fb0d6963f7d28e17f72''
      else if s = ''../../../etc/passwd'' then ''1fcbd5c1448a61938f3dcc0d91e2f605''
      else ''d41d8cd98f00b204e9800998ecf8427e'')"

subsection \<open>Containment of a path in a directory\<close>

text \<open>
  What the specification asks of a resolved path: to be a descendant of the bucket's
  directory. A path is a descendant of a directory when, both normalised, its components
  are those of the directory followed by at least one more.
\<close>

definition descendant :: "string \<Rightarrow> string \<Rightarrow> bool" where
  "descendant p d =
     (let cp = filter (\<lambda>c. c \<noteq> []) (split_slash (normpath p));
          cd = filter (\<lambda>c. c \<noteq> []) (split_slash (normpath d))
      in length cd < length cp \<and> take (length cd) cp = cd)"

subsection \<open>Keys that are normalised relative paths\<close>

text \<open>
  A key whose segments between slashes are all non-empty and none of them \<^verbatim>\<open>.\<close> or \<^verbatim>\<open>..\<close>: it
  is not empty, neither begins nor ends with a slash, and \<^verbatim>\<open>os.path.normpath\<close> leaves it as
  it is.
\<close>

definition clean_key :: "string \<Rightarrow> bool" where
  "clean_key k = ([] \<notin> set (split_slash k) \<and> ''.'' \<notin> set (split_slash k) \<and> ''..'' \<notin> set (split_slash k))"

section \<open>The multipart uploader\<close>

subsection \<open>The flush keeps the description of the session\<close>

lemma twc_inv:
  "session_inv md5 ws u \<Longrightarrow>
     \<exists>u'. trigger_write_completion u = (u', None) \<and> session_inv md5 ws u' \<and>
          map_of ws (part_number u') = None \<and> part_number u \<le> part_number u' \<and>
          path u' = path u \<and> upload_id u' = upload_id u"
proof (induction u rule: trigger_write_completion.induct)
  case (1 u)
  show ?case
  proof (cases "map_of (buffers u) (part_number u)")
    case None
    with "1.prems" have "map_of ws (part_number u) = None"
      by (simp add: session_inv_def)
    with None "1.prems" show ?thesis
      by (simp add: trigger_write_completion.simps[of u])
  next
    case (Some b)
    with "1.prems" obtain d where d: "map_of ws (part_number u) = Some d"
      and b: "b = \<lparr>data = Some d, md5sum = md5 d\<rparr>"
      by (auto simp: session_inv_def)
    define f where "f = (file_obj u)\<lparr>content := content (file_obj u) @ d\<rparr>"
    have fw: "file_write (file_obj u) (data b) = Inr f"
      using "1.prems" b by (simp add: file_write_def session_inv_def f_def)
    define u2 where "u2 = u\<lparr>file_obj := f,
                    buffers := AList.update (part_number u) (forget_data b) (buffers u),
                    part_number := part_number u + 1\<rparr>"
    have up: "[1..part_number u] = [1..part_number u - 1] @ [part_number u]"
      using "1.prems" by (simp add: session_inv_def upto_rec2)
    have inv2: "session_inv md5 ws u2"
      unfolding session_inv_def
    proof (intro conjI allI impI)
      show "\<not> closed (file_obj u2)" "1 \<le> part_number u2" "distinct (map fst ws)"
        using "1.prems" by (simp_all add: session_inv_def u2_def f_def)
    next
      fix p
      show "map_of (buffers u2) p =
            map_option (\<lambda>d. \<lparr>data = (if 1 \<le> p \<and> p < part_number u2 then None else Some d),
                              md5sum = md5 d\<rparr>) (map_of ws p)"
      proof (cases "p = part_number u")
        case True
        then show ?thesis
          using "1.prems" d b
          by (simp add: session_inv_def u2_def update_conv' forget_data_def)
      next
        case False
        then have "(p < part_number u + 1) = (p < part_number u)" by arith
        with False show ?thesis
          using "1.prems"
          by (simp add: session_inv_def u2_def update_conv')
      qed
    next
      fix p assume "1 \<le> p \<and> p < part_number u2"
      then have "p = part_number u \<or> (1 \<le> p \<and> p < part_number u)"
        by (auto simp: u2_def)
      then show "map_of ws p \<noteq> None"
        using "1.prems" d by (auto simp: session_inv_def)
    next
      show "content (file_obj u2) = concat (map (\<lambda>p. the (map_of ws p)) [1..part_number u2 - 1])"
        using "1.prems" d up by (simp add: session_inv_def u2_def f_def)
    qed
    from "1.IH"[OF Some fw, folded u2_def, OF inv2]
    obtain u' where "trigger_write_completion u2 = (u', None)" "session_inv md5 ws u'"
      "map_of ws (part_number u') = None" "part_number u2 \<le> part_number u'"
      "path u' = path u2" "upload_id u' = upload_id u2"
      by blast
    moreover have "trigger_write_completion u = trigger_write_completion u2"
      by (subst trigger_write_completion.simps) (simp add: Some fw u2_def)
    ultimately show ?thesis
      by (simp add: u2_def)
  qed
qed


lemma session_ok_init: "session_ok md5 [] (MultipartUploader uid p)"
  by (simp add: session_ok_def session_inv_def MultipartUploader_def open_w_def)

lemma write_duplicate:
  assumes "session_inv md5 ws u" "map_of ws p = Some d'"
  shows "write md5 u p d = (u, Some (HTTPError 400 ''PartNumber already received''))"
  using assms by (simp add: write_def session_inv_def)

lemma write_fresh:
  assumes inv: "session_inv md5 ws u" and fresh: "map_of ws p = None"
  shows "\<exists>u'. write md5 u p d = (u', None) \<and> session_ok md5 (ws @ [(p, d)]) u' \<and>
              part_number u \<le> part_number u' \<and> path u' = path u \<and> upload_id u' = upload_id u"
proof -
  define u1 where "u1 = u\<lparr>buffers := AList.update p (MultipartBuffer md5 d) (buffers u)\<rparr>"
  have nb: "map_of (buffers u) p = None"
    using inv fresh by (simp add: session_inv_def)
  have w: "write md5 u p d = trigger_write_completion u1"
    by (simp add: write_def nb u1_def)
  have notflushed: "\<not> (1 \<le> p \<and> p < part_number u)"
    using inv fresh by (auto simp: session_inv_def)
  have pfresh: "p \<notin> fst ` set ws"
    using fresh by (simp add: map_of_eq_None_iff)
  have look: "map_of (ws @ [(p, d)]) q = (if q = p then Some d else map_of ws q)" for q
    using fresh by (cases "map_of ws q") (auto simp: map_of_append map_add_def)
  have inv1: "session_inv md5 (ws @ [(p, d)]) u1"
    unfolding session_inv_def
  proof (intro conjI allI impI)
    show "\<not> closed (file_obj u1)" "1 \<le> part_number u1"
      using inv by (simp_all add: session_inv_def u1_def)
    show "distinct (map fst (ws @ [(p, d)]))"
      using inv pfresh by (simp add: session_inv_def)
  next
    fix q
    show "map_of (buffers u1) q =
            map_option (\<lambda>d. \<lparr>data = (if 1 \<le> q \<and> q < part_number u1 then None else Some d),
                              md5sum = md5 d\<rparr>) (map_of (ws @ [(p, d)]) q)"
      using inv notflushed
      by (auto simp: look session_inv_def u1_def update_conv' MultipartBuffer_def
               simp del: map_of_append)
  next
    fix q assume "1 \<le> q \<and> q < part_number u1"
    then show "map_of (ws @ [(p, d)]) q \<noteq> None"
      using inv by (auto simp: look session_inv_def u1_def simp del: map_of_append)
  next
    have "map (\<lambda>q. the (map_of (ws @ [(p, d)]) q)) [1..part_number u - 1]
            = map (\<lambda>q. the (map_of ws q)) [1..part_number u - 1]"
      using notflushed by (intro map_cong) (auto simp: look simp del: map_of_append)
    moreover have "content (file_obj u1) = concat (map (\<lambda>q. the (map_of ws q)) [1..part_number u - 1])"
      using inv by (simp add: session_inv_def u1_def)
    moreover have "part_number u1 = part_number u"
      by (simp add: u1_def)
    ultimately show "content (file_obj u1) =
                 concat (map (\<lambda>q. the (map_of (ws @ [(p, d)]) q)) [1..part_number u1 - 1])"
      by (simp only:)
  qed
  from twc_inv[OF inv1] w show ?thesis
    by (auto simp: session_ok_def u1_def)
qed

lemma write_all_distinct:
  assumes "session_ok md5 pre u" "distinct (map fst ws)" "fst ` set pre \<inter> fst ` set ws = {}"
  shows "\<exists>s. write_all md5 u ws = (s, None) \<and> session_ok md5 (pre @ ws) s \<and>
             part_number u \<le> part_number s \<and> path s = path u \<and> upload_id s = upload_id u"
  using assms
proof (induction ws arbitrary: pre u)
  case Nil
  then show ?case by simp
next
  case (Cons w ws)
  obtain p d where w: "w = (p, d)" by (cases w)
  have fresh: "map_of pre p = None"
    using Cons.prems(3) by (auto simp: w map_of_eq_None_iff)
  from write_fresh[OF _ fresh, of md5 u d] Cons.prems(1)
  obtain u' where u': "write md5 u p d = (u', None)" "session_ok md5 (pre @ [(p, d)]) u'"
    "part_number u \<le> part_number u'" "path u' = path u" "upload_id u' = upload_id u"
    by (auto simp: session_ok_def)
  have "\<exists>s. write_all md5 u' ws = (s, None) \<and> session_ok md5 ((pre @ [(p, d)]) @ ws) s \<and>
             part_number u' \<le> part_number s \<and> path s = path u' \<and> upload_id s = upload_id u'"
    using Cons.prems(2,3) u'(2) by (intro Cons.IH) (auto simp: w)
  then show ?case
    using u' by (auto simp: w)
qed

lemma write_all_success_distinct:
  assumes "session_ok md5 pre u" "write_all md5 u ws = (s, None)"
  shows "distinct (map fst ws) \<and> fst ` set pre \<inter> fst ` set ws = {}"
  using assms
proof (induction ws arbitrary: pre u)
  case Nil
  then show ?case by simp
next
  case (Cons w ws)
  obtain p d where w: "w = (p, d)" by (cases w)
  have fresh: "map_of pre p = None"
  proof (cases "map_of pre p")
    case (Some d')
    with Cons.prems show ?thesis
      by (simp add: w write_duplicate[of md5 pre u p d' d] session_ok_def)
  qed simp
  from write_fresh[OF _ fresh, of md5 u d] Cons.prems(1)
  obtain u' where u': "write md5 u p d = (u', None)" "session_ok md5 (pre @ [(p, d)]) u'"
    by (auto simp: session_ok_def)
  with Cons.prems(2) have "write_all md5 u' ws = (s, None)"
    by (simp add: w)
  from Cons.IH[OF u'(2) this] fresh show ?case
    by (auto simp: w map_of_eq_None_iff)
qed


lemmas uploader_eval =
  write_def trigger_write_completion.simps file_write_def MultipartBuffer_def forget_data_def
  MultipartUploader_def open_w_def


text \<open>
  A sequence of \<^verbatim>\<open>write\<close> calls on a new uploader succeeds as a whole exactly when its part
  numbers are distinct.
\<close>

lemma write_all_succeeds_iff:
  "(\<exists>s. write_all md5 (MultipartUploader uid p) ws = (s, None)) \<longleftrightarrow> distinct (map fst ws)"
  using write_all_distinct[OF session_ok_init, of ws md5 uid p]
        write_all_success_distinct[OF session_ok_init, of md5 uid p ws]
  by auto

subsection \<open>Claim C1\<close>

text \<open>
  C1. After any sequence of successful \<^verbatim>\<open>write\<close> calls on a new upload session, in any order
  of part numbers (the calls all succeed exactly when the part numbers are distinct), the
  cursor \<open>part_number s\<close> is \<open>k + 1\<close> for the largest \<open>k\<close> such that all of the parts 1 to \<open>k\<close>
  have been received: these parts are received and part \<open>k + 1\<close> is not. The content of the
  destination file is the concatenation of the data of the parts 1 to \<open>k\<close> in this order, and
  every received part beyond \<open>k\<close> is still buffered with its data.
\<close>

theorem parts_written_in_order:
  assumes "distinct (map fst ws)"
  shows "\<exists>s. write_all md5 (MultipartUploader uid p) ws = (s, None) \<and>
           1 \<le> part_number s \<and>
           (\<forall>i. 1 \<le> i \<and> i < part_number s \<longrightarrow> i \<in> fst ` set ws) \<and>
           part_number s \<notin> fst ` set ws \<and>
           content (file_obj s) = concat (map (\<lambda>i. the (map_of ws i)) [1..part_number s - 1]) \<and>
           (\<forall>(i, d) \<in> set ws. part_number s \<le> i \<longrightarrow>
               map_of (buffers s) i = Some \<lparr>data = Some d, md5sum = md5 d\<rparr>)"
proof -
  from write_all_distinct[OF session_ok_init assms, of md5 uid p]
  obtain s where s: "write_all md5 (MultipartUploader uid p) ws = (s, None)"
    and ok: "session_ok md5 ws s"
    by auto
  from ok have inv: "session_inv md5 ws s" and nx: "map_of ws (part_number s) = None"
    by (simp_all add: session_ok_def)
  have "1 \<le> part_number s"
    using inv by (simp add: session_inv_def)
  moreover have "\<forall>i. 1 \<le> i \<and> i < part_number s \<longrightarrow> i \<in> fst ` set ws"
    using inv by (auto simp: session_inv_def map_of_eq_None_iff)
  moreover have "part_number s \<notin> fst ` set ws"
    using nx by (simp add: map_of_eq_None_iff)
  moreover have "content (file_obj s) = concat (map (\<lambda>i. the (map_of ws i)) [1..part_number s - 1])"
    using inv by (simp add: session_inv_def)
  moreover have "\<forall>(i, d) \<in> set ws. part_number s \<le> i \<longrightarrow>
               map_of (buffers s) i = Some \<lparr>data = Some d, md5sum = md5 d\<rparr>"
  proof (clarify)
    fix i d assume "(i, d) \<in> set ws" "part_number s \<le> i"
    moreover from this inv have "map_of ws i = Some d"
      by (simp add: session_inv_def)
    ultimately show "map_of (buffers s) i = Some \<lparr>data = Some d, md5sum = md5 d\<rparr>"
      using inv by (simp add: session_inv_def)
  qed
  ultimately show ?thesis
    using s by blast
qed

theorem parts_written_in_order_witness:
  "distinct (map fst [(2::int, ''B''), (1, ''A'')]) \<and>
   (\<exists>s. write_all md5_table (MultipartUploader ''u'' ''/tmp/s3/b/k'') [(2, ''B''), (1, ''A'')] = (s, None) \<and>
        part_number s = 3 \<and> content (file_obj s) = ''AB'')"
  using parts_written_in_order[of "[(2::int, ''B''), (1, ''A'')]" md5_table "''u''" "''/tmp/s3/b/k''"]
  by (simp add: uploader_eval)


subsection \<open>Sessions reached by accepted calls, and the handlers on them\<close>


lemma session_of_writes:
  assumes "write_all md5 (MultipartUploader uid p) ws = (s, None)"
  shows "session_ok md5 ws s" "upload_id s = uid" "path s = p" "distinct (map fst ws)"
proof -
  from write_all_success_distinct[OF session_ok_init assms]
  have d: "distinct (map fst ws)" by simp
  from write_all_distinct[OF session_ok_init d, of md5 uid p] assms
  show "session_ok md5 ws s" "upload_id s = uid" "path s = p"
    by (auto simp: MultipartUploader_def)
  show "distinct (map fst ws)" by (rule d)
qed

lemma twc_flushed:
  "map_of (buffers u) (part_number u) = None \<Longrightarrow> trigger_write_completion u = (u, None)"
  by (simp add: trigger_write_completion.simps[of u])

lemma session_ok_flushed:
  "session_ok md5 ws s \<Longrightarrow> map_of (buffers s) (part_number s) = None"
  by (simp add: session_ok_def session_inv_def)

lemma session_buffer:
  assumes "session_ok md5 ws s" "distinct (map fst ws)" "(i, d) \<in> set ws"
  shows "map_of (buffers s) i =
           Some \<lparr>data = (if 1 \<le> i \<and> i < part_number s then None else Some d), md5sum = md5 d\<rparr>"
proof -
  from assms(2,3) have "map_of ws i = Some d" by simp
  with assms(1) show ?thesis
    by (simp add: session_ok_def session_inv_def)
qed

lemma write_all_snoc:
  "write_all md5 u ws = (s, None) \<Longrightarrow> write md5 s pn d = (s', e) \<Longrightarrow>
     write_all md5 u (ws @ [(pn, d)]) = (s', e)"
  by (induction ws arbitrary: u) (auto split: prod.splits option.splits)

lemma factory_lookup:
  "map_of (multipart_uploaders w) uid = Some u \<Longrightarrow> MultipartUploaderFactory w uid None = (Some u, w)"
  "map_of (multipart_uploaders w) uid = None \<Longrightarrow> MultipartUploaderFactory w uid None = (None, w)"
  by (simp_all add: MultipartUploaderFactory_def truthy_def)

lemma ensure_directory_keeps [simp]:
  "multipart_uploaders (ensure_directory w q) = multipart_uploaders w"
  "files (ensure_directory w q) = files w"
  by (simp_all add: ensure_directory_def makedirs_def Let_def)

lemma py_int_nonempty: "py_int ps = Inr pn \<Longrightarrow> ps \<noteq> []"
  by (auto simp: py_int_def)

lemma put_part:
  assumes "checked_object_path md5 cwd app w bucket obj = Inr q"
    and "map_of (multipart_uploaders w) uid = Some u" "uid \<noteq> []" "py_int ps = Inr pn"
  shows "put md5 cwd app w bucket obj (Some ps) (Some uid) body =
           (case write md5 u pn body of
              (u', Some e) \<Rightarrow> (store_object u' (ensure_directory w q), Inl e)
            | (u', None) \<Rightarrow>
                (case map_of (buffers u') pn of
                   None \<Rightarrow> (store_object u' (ensure_directory w q), Inl KeyError)
                 | Some b \<Rightarrow> (store_object u' (ensure_directory w q), Inr (md5sum b))))"
  using assms py_int_nonempty[OF assms(4)]
  by (simp add: put_def truthy_def factory_lookup(1)[of "ensure_directory w q" uid u])

lemma put_part_no_upload:
  assumes "checked_object_path md5 cwd app w bucket obj = Inr q"
    and "map_of (multipart_uploaders w) uid = None" "uid \<noteq> []" "py_int ps = Inr pn"
  shows "put md5 cwd app w bucket obj (Some ps) (Some uid) body =
           (ensure_directory w q, Inl (HTTPError 404 ''No such upload ID''))"
  using assms py_int_nonempty[OF assms(4)]
  by (simp add: put_def truthy_def factory_lookup(2)[of "ensure_directory w q" uid])

lemma store_object_same:
  "map_of (multipart_uploaders w) (upload_id u) = Some u \<Longrightarrow> store_object u w = w"
  by (simp add: store_object_def update_triv)

lemma store_object_lookup:
  "map_of (multipart_uploaders w) (upload_id u) = Some v \<Longrightarrow>
     map_of (multipart_uploaders (store_object u w)) (upload_id u) = Some u"
  by (simp add: store_object_def update_conv')

lemma store_object_absent:
  "map_of (multipart_uploaders w) (upload_id u) = None \<Longrightarrow> store_object u w = w"
  by (simp add: store_object_def)


lemmas path_eval =
  startswith_def endswith_def join_def join_step_def isabs_def initial_slashes_def
  norm_step_def normpath_def abspath_def dirname_def object_path_def Let_def

lemmas handler_eval =
  checked_object_path_def ensure_directory_def isdir_def isfile_def exists_path_def
  makedirs_def store_object_def MultipartUploaderFactory_def truthy_def py_int_def
  is_space_def is_digit_def digit_value_def registry_del_def file_flush_def file_close_def



lemma close_of_session:
  assumes "session_ok md5 ws s"
  shows "close s w =
           (case registry_del (multipart_uploaders w) (upload_id s) of
              Inl e \<Rightarrow> (s\<lparr>file_obj := file_close (file_obj s)\<rparr>, w, Some e)
            | Inr reg \<Rightarrow> (s\<lparr>file_obj := file_close (file_obj s)\<rparr>,
                           w\<lparr>multipart_uploaders := reg\<rparr>, None))"
proof -
  have "trigger_write_completion s = (s, None)"
    by (rule twc_flushed[OF session_ok_flushed[OF assms]])
  moreover have "file_flush (file_obj s) = Inr (file_obj s)"
    using assms by (simp add: file_flush_def session_ok_def session_inv_def)
  ultimately show ?thesis
    by (simp add: close_def Let_def)
qed



lemma part_list_present:
  assumes "\<forall>i \<in> set ns. \<exists>b. map_of bufs i = Some b \<and> md5sum b = f i"
  shows "part_list bufs ns = Inr (map (\<lambda>i. (i, f i)) ns)"
  using assms by (induction ns) auto

lemma registry_del_present:
  "map_of reg uid = Some u \<Longrightarrow> registry_del reg uid = Inr (AList.delete uid reg)"
  by (simp add: registry_del_def)

lemma registry_del_absent:
  "map_of reg uid = None \<Longrightarrow> registry_del reg uid = Inl KeyError"
  by (simp add: registry_del_def)

lemma map_of_delete_same: "map_of (AList.delete k al) k = None"
  by (simp add: delete_conv')



lemma abort_registered:
  assumes "map_of (multipart_uploaders w) (upload_id u) = Some v" "isfile w (path u)"
  shows "abort u w =
           (u\<lparr>file_obj := file_close (file_obj u)\<rparr>,
            w\<lparr>files := removeAll (path u) (files w),
              multipart_uploaders := AList.delete (upload_id u) (multipart_uploaders w)\<rparr>, None)"
  using assms by (simp add: abort_def Let_def registry_del_present)


subsection \<open>Claim C4\<close>

text \<open>
  C4. Let \<open>s\<close> be an upload session after the successful \<^verbatim>\<open>write\<close> calls \<open>ws\<close>. A further
  \<^verbatim>\<open>write\<close> for a part number that has been received, whether its buffer still holds the
  data or has been flushed, raises \<^verbatim>\<open>HTTPError(400)\<close> and leaves the session as it is; a
  first \<^verbatim>\<open>write\<close> for a part number succeeds and stores the checksum of the data. For the
  \<^verbatim>\<open>put\<close> handler of a request with a part number and the id of this session: it raises the
  same error in the first case, and returns the checksum of the body in the second.
\<close>

theorem part_accepted_at_most_once:
  assumes "write_all md5 (MultipartUploader uid p) ws = (s, None)"
  shows "(pn \<in> fst ` set ws \<longrightarrow>
            write md5 s pn d = (s, Some (HTTPError 400 ''PartNumber already received''))) \<and>
         (pn \<notin> fst ` set ws \<longrightarrow>
            (\<exists>s'. write md5 s pn d = (s', None) \<and>
                  map_option md5sum (map_of (buffers s') pn) = Some (md5 d))) \<and>
         (checked_object_path md5 cwd app w bucket obj = Inr q \<and>
          map_of (multipart_uploaders w) uid = Some s \<and> uid \<noteq> [] \<and> py_int ps = Inr pn \<longrightarrow>
            (pn \<in> fst ` set ws \<longrightarrow>
               put md5 cwd app w bucket obj (Some ps) (Some uid) d =
                 (ensure_directory w q, Inl (HTTPError 400 ''PartNumber already received''))) \<and>
            (pn \<notin> fst ` set ws \<longrightarrow>
               snd (put md5 cwd app w bucket obj (Some ps) (Some uid) d) = Inr (md5 d)))"
proof -
  note ses = session_of_writes[OF assms]
  from ses(1) have inv: "session_inv md5 ws s"
    by (simp add: session_ok_def)
  have dup: "write md5 s pn d = (s, Some (HTTPError 400 ''PartNumber already received''))"
    if "pn \<in> fst ` set ws"
  proof -
    from that obtain d' where "map_of ws pn = Some d'"
      by (metis domD dom_map_of_conv_image_fst)
    then show ?thesis
      by (rule write_duplicate[OF inv])
  qed
  have fresh: "\<exists>s'. write md5 s pn d = (s', None) \<and>
                  map_option md5sum (map_of (buffers s') pn) = Some (md5 d)"
    if "pn \<notin> fst ` set ws"
  proof -
    from that have "map_of ws pn = None"
      by (simp add: map_of_eq_None_iff)
    from write_fresh[OF inv this, of d]
    obtain s' where s': "write md5 s pn d = (s', None)" "session_ok md5 (ws @ [(pn, d)]) s'"
      by blast
    have "distinct (map fst (ws @ [(pn, d)]))"
      using ses(4) that by simp
    from session_buffer[OF s'(2) this, of pn d] s'(1) show ?thesis
      by auto
  qed
  have handler: "(pn \<in> fst ` set ws \<longrightarrow>
               put md5 cwd app w bucket obj (Some ps) (Some uid) d =
                 (ensure_directory w q, Inl (HTTPError 400 ''PartNumber already received''))) \<and>
            (pn \<notin> fst ` set ws \<longrightarrow>
               snd (put md5 cwd app w bucket obj (Some ps) (Some uid) d) = Inr (md5 d))"
    if chk: "checked_object_path md5 cwd app w bucket obj = Inr q"
      and reg: "map_of (multipart_uploaders w) uid = Some s"
      and args: "uid \<noteq> []" "py_int ps = Inr pn"
  proof (intro conjI impI)
    assume "pn \<in> fst ` set ws"
    from dup[OF this] show "put md5 cwd app w bucket obj (Some ps) (Some uid) d =
                 (ensure_directory w q, Inl (HTTPError 400 ''PartNumber already received''))"
      using reg ses(2)
      by (simp add: put_part[OF chk reg args] store_object_same)
  next
    assume "pn \<notin> fst ` set ws"
    from fresh[OF this] show "snd (put md5 cwd app w bucket obj (Some ps) (Some uid) d) = Inr (md5 d)"
      by (auto simp: put_part[OF chk reg args])
  qed
  from dup fresh handler show ?thesis
    by blast
qed

theorem part_accepted_at_most_once_witness:
  "write_all md5_table (MultipartUploader ''u1'' ''/tmp/s3/b/k'') [(1, ''A'')] =
     (\<lparr>path = ''/tmp/s3/b/k'', upload_id = ''u1'',
       file_obj = \<lparr>closed = False, content = ''A''\<rparr>, part_number = 2,
       buffers = [(1, \<lparr>data = None, md5sum = ''7fc56270e7a70fa81a5935b72eacbe29''\<rparr>)]\<rparr>, None) \<and>
   snd (put md5_table ''/'' \<lparr>directory = ''/tmp/s3'', bucket_depth = 0\<rparr>
          \<lparr>multipart_uploaders =
             [(''u1'', \<lparr>path = ''/tmp/s3/b/k'', upload_id = ''u1'',
                file_obj = \<lparr>closed = False, content = ''A''\<rparr>, part_number = 2,
                buffers = [(1, \<lparr>data = None, md5sum = ''7fc56270e7a70fa81a5935b72eacbe29''\<rparr>)]\<rparr>)],
           files = [''/tmp/s3/b/k''], dirs = [''/tmp/s3'', ''/tmp/s3/b'']\<rparr>
          ''b'' ''k'' (Some ''1'') (Some ''u1'') ''X'')
     = Inl (HTTPError 400 ''PartNumber already received'') \<and>
   snd (put md5_table ''/'' \<lparr>directory = ''/tmp/s3'', bucket_depth = 0\<rparr>
          \<lparr>multipart_uploaders =
             [(''u1'', \<lparr>path = ''/tmp/s3/b/k'', upload_id = ''u1'',
                file_obj = \<lparr>closed = False, content = ''A''\<rparr>, part_number = 2,
                buffers = [(1, \<lparr>data = None, md5sum = ''7fc56270e7a70fa81a5935b72eacbe29''\<rparr>)]\<rparr>)],
           files = [''/tmp/s3/b/k''], dirs = [''/tmp/s3'', ''/tmp/s3/b'']\<rparr>
          ''b'' ''k'' (Some ''2'') (Some ''u1'') ''B'')
     = Inr ''9d5ed678fe57bcca610140957afab571''"
proof -
  let ?s = "\<lparr>path = ''/tmp/s3/b/k'', upload_id = ''u1'',
       file_obj = \<lparr>closed = False, content = ''A''\<rparr>, part_number = 2,
       buffers = [(1, \<lparr>data = None, md5sum = ''7fc56270e7a70fa81a5935b72eacbe29''\<rparr>)]\<rparr>"
  let ?w = "\<lparr>multipart_uploaders = [(''u1'', ?s)],
           files = [''/tmp/s3/b/k''], dirs = [''/tmp/s3'', ''/tmp/s3/b'']\<rparr>"
  let ?app = "\<lparr>directory = ''/tmp/s3'', bucket_depth = 0\<rparr>"
  have ses: "write_all md5_table (MultipartUploader ''u1'' ''/tmp/s3/b/k'') [(1, ''A'')] = (?s, None)"
    by (simp add: uploader_eval md5_table_def)
  have chk: "checked_object_path md5_table ''/'' ?app ?w ''b'' ''k'' = Inr ''/tmp/s3/b/k''"
    by (simp add: path_eval handler_eval)
  have i1: "py_int ''1'' = Inr 1" and i2: "py_int ''2'' = Inr 2"
    by (simp_all add: handler_eval)
  from part_accepted_at_most_once[OF ses, of 1 "''X''" "''/''" ?app ?w "''b''" "''k''" "''/tmp/s3/b/k''" "''1''"]
       part_accepted_at_most_once[OF ses, of 2 "''B''" "''/''" ?app ?w "''b''" "''k''" "''/tmp/s3/b/k''" "''2''"]
       ses chk i1 i2
  show ?thesis
    by (simp add: md5_table_def)
qed


subsection \<open>Claim C10\<close>

text \<open>
  C10. Let \<open>s\<close> be an upload session after the successful \<^verbatim>\<open>write\<close> calls \<open>ws\<close>, and \<open>pn \<le> 0\<close>.
  A first \<^verbatim>\<open>write\<close> for part \<open>pn\<close> succeeds: it stores the buffer with the data and its checksum
  and changes nothing else, and the \<^verbatim>\<open>put\<close> handler returns the checksum. If part \<open>pn\<close> is
  among the calls \<open>ws\<close>, whatever calls came after it, its buffer still holds its data. The
  cursor is above \<open>pn\<close>, the file holds the data of the parts from 1 up to the cursor only, and
  \<^verbatim>\<open>close\<close> changes nothing of the session but the closed flag of the file: the bytes of part
  \<open>pn\<close> are never written.
\<close>

theorem nonpositive_part_never_written:
  assumes "write_all md5 (MultipartUploader uid p) ws = (s, None)" and "pn \<le> 0"
  shows "(pn \<notin> fst ` set ws \<longrightarrow>
            write md5 s pn d =
              (s\<lparr>buffers := AList.update pn (MultipartBuffer md5 d) (buffers s)\<rparr>, None)) \<and>
         (\<forall>d'. (pn, d') \<in> set ws \<longrightarrow>
            map_of (buffers s) pn = Some \<lparr>data = Some d', md5sum = md5 d'\<rparr>) \<and>
         pn < part_number s \<and>
         content (file_obj s) = concat (map (\<lambda>i. the (map_of ws i)) [1..part_number s - 1]) \<and>
         (\<forall>w. fst (close s w) = s\<lparr>file_obj := file_close (file_obj s)\<rparr>) \<and>
         (checked_object_path md5 cwd app w bucket obj = Inr q \<and>
          map_of (multipart_uploaders w) uid = Some s \<and> uid \<noteq> [] \<and> py_int ps = Inr pn \<and>
          pn \<notin> fst ` set ws \<longrightarrow>
            snd (put md5 cwd app w bucket obj (Some ps) (Some uid) d) = Inr (md5 d))"
proof -
  note ses = session_of_writes[OF assms(1)]
  from ses(1) have inv: "session_inv md5 ws s"
    by (simp add: session_ok_def)
  have cursor: "1 \<le> part_number s"
    using inv by (simp add: session_inv_def)
  have accept: "write md5 s pn d =
              (s\<lparr>buffers := AList.update pn (MultipartBuffer md5 d) (buffers s)\<rparr>, None)"
    if "pn \<notin> fst ` set ws"
  proof -
    from that have "map_of ws pn = None"
      by (simp add: map_of_eq_None_iff)
    with inv have nb: "map_of (buffers s) pn = None"
      by (simp add: session_inv_def)
    have "pn \<noteq> part_number s"
      using cursor assms(2) by simp
    then have "map_of (AList.update pn (MultipartBuffer md5 d) (buffers s)) (part_number s) = None"
      using session_ok_flushed[OF ses(1)] by (simp add: update_conv')
    then have "trigger_write_completion
                 (s\<lparr>buffers := AList.update pn (MultipartBuffer md5 d) (buffers s)\<rparr>)
               = (s\<lparr>buffers := AList.update pn (MultipartBuffer md5 d) (buffers s)\<rparr>, None)"
      by (intro twc_flushed) simp
    with nb show ?thesis
      by (simp add: write_def)
  qed
  have kept: "map_of (buffers s) pn = Some \<lparr>data = Some d', md5sum = md5 d'\<rparr>"
    if "(pn, d') \<in> set ws" for d'
    using session_buffer[OF ses(1) ses(4) that] assms(2) by simp
  have fcontent: "content (file_obj s) = concat (map (\<lambda>i. the (map_of ws i)) [1..part_number s - 1])"
    using inv by (simp add: session_inv_def)
  have complete: "fst (close s w') = s\<lparr>file_obj := file_close (file_obj s)\<rparr>" for w'
    by (simp add: close_of_session[OF ses(1)] split: sum.splits)
  have handler: "snd (put md5 cwd app w bucket obj (Some ps) (Some uid) d) = Inr (md5 d)"
    if chk: "checked_object_path md5 cwd app w bucket obj = Inr q"
      and reg: "map_of (multipart_uploaders w) uid = Some s"
      and args: "uid \<noteq> []" "py_int ps = Inr pn" and new: "pn \<notin> fst ` set ws"
    by (simp add: put_part[OF chk reg args] accept[OF new] update_conv' MultipartBuffer_def)
  from accept kept fcontent complete handler cursor assms(2) show ?thesis
    by (intro conjI impI allI) auto
qed

theorem nonpositive_part_never_written_witness:
  "write_all md5_table (MultipartUploader ''u1'' ''/tmp/s3/b/k'') [(0, ''X''), (1, ''A'')] =
     (\<lparr>path = ''/tmp/s3/b/k'', upload_id = ''u1'',
       file_obj = \<lparr>closed = False, content = ''A''\<rparr>, part_number = 2,
       buffers = [(0, \<lparr>data = Some ''X'', md5sum = ''02129bb861061d1a052c592e2dc6b383''\<rparr>),
                  (1, \<lparr>data = None, md5sum = ''7fc56270e7a70fa81a5935b72eacbe29''\<rparr>)]\<rparr>, None) \<and>
   snd (put md5_table ''/'' \<lparr>directory = ''/tmp/s3'', bucket_depth = 0\<rparr>
          \<lparr>multipart_uploaders =
             [(''u1'', \<lparr>path = ''/tmp/s3/b/k'', upload_id = ''u1'',
                file_obj = \<lparr>closed = False, content = ''A''\<rparr>, part_number = 2,
                buffers = [(0, \<lparr>data = Some ''X'', md5sum = ''02129bb861061d1a052c592e2dc6b383''\<rparr>),
                           (1, \<lparr>data = None, md5sum = ''7fc56270e7a70fa81a5935b72eacbe29''\<rparr>)]\<rparr>)],
           files = [''/tmp/s3/b/k''], dirs = [''/tmp/s3'', ''/tmp/s3/b'']\<rparr>
          ''b'' ''k'' (Some ''-1'') (Some ''u1'') ''B'')
     = Inr ''9d5ed678fe57bcca610140957afab571''"
proof -
  let ?s = "\<lparr>path = ''/tmp/s3/b/k'', upload_id = ''u1'',
       file_obj = \<lparr>closed = False, content = ''A''\<rparr>, part_number = 2,
       buffers = [(0, \<lparr>data = Some ''X'', md5sum = ''02129bb861061d1a052c592e2dc6b383''\<rparr>),
                  (1, \<lparr>data = None, md5sum = ''7fc56270e7a70fa81a5935b72eacbe29''\<rparr>)]\<rparr>"
  let ?w = "\<lparr>multipart_uploaders = [(''u1'', ?s)],
           files = [''/tmp/s3/b/k''], dirs = [''/tmp/s3'', ''/tmp/s3/b'']\<rparr>"
  let ?app = "\<lparr>directory = ''/tmp/s3'', bucket_depth = 0\<rparr>"
  have ses: "write_all md5_table (MultipartUploader ''u1'' ''/tmp/s3/b/k'') [(0, ''X''), (1, ''A'')] = (?s, None)"
    by (simp add: uploader_eval md5_table_def)
  have chk: "checked_object_path md5_table ''/'' ?app ?w ''b'' ''k'' = Inr ''/tmp/s3/b/k''"
    by (simp add: path_eval handler_eval)
  have i1: "py_int ''-1'' = Inr (- 1)"
    by (simp add: handler_eval)
  have le: "(- 1 :: int) \<le> 0" by simp
  from nonpositive_part_never_written[OF ses le, of "''B''" "''/''" ?app ?w "''b''" "''k''" "''/tmp/s3/b/k''" "''-1''"]
       ses chk i1
  show ?thesis
    by (simp add: md5_table_def)
qed


subsection \<open>Claim C5\<close>

text \<open>
  C5, as the claim states it, fails: the answer of \<^verbatim>\<open>post\<close> is built from
  \<^verbatim>\<open>range(1, object_file.part_number)\<close>, so a part received beyond a gap that was never filled
  is not in it. After the single call \<^verbatim>\<open>write(2, "B")\<close> the part is buffered, and completing
  the upload answers with the empty list.
\<close>

theorem complete_lists_all_parts_counterexample:
  "write_all md5_table (MultipartUploader ''u1'' ''/tmp/s3/b/k'') [(2, ''B'')] =
     (\<lparr>path = ''/tmp/s3/b/k'', upload_id = ''u1'',
       file_obj = \<lparr>closed = False, content = []\<rparr>, part_number = 1,
       buffers = [(2, \<lparr>data = Some ''B'', md5sum = ''9d5ed678fe57bcca610140957afab571''\<rparr>)]\<rparr>, None) \<and>
   snd (post md5_table ''/'' \<lparr>directory = ''/tmp/s3'', bucket_depth = 0\<rparr>
          \<lparr>multipart_uploaders =
             [(''u1'', \<lparr>path = ''/tmp/s3/b/k'', upload_id = ''u1'',
                file_obj = \<lparr>closed = False, content = []\<rparr>, part_number = 1,
                buffers = [(2, \<lparr>data = Some ''B'', md5sum = ''9d5ed678fe57bcca610140957afab571''\<rparr>)]\<rparr>)],
           files = [''/tmp/s3/b/k''], dirs = [''/tmp/s3'', ''/tmp/s3/b'']\<rparr>
          ''b'' ''k'' (Some ''u1'') [] [])
     = Inr (CompleteMultipartUpload [])"
  by (simp add: uploader_eval md5_table_def post_def close_def handler_eval upto.simps)


text \<open>
  C5, amended. Let \<open>s\<close> be an upload session after the successful \<^verbatim>\<open>write\<close> calls \<open>ws\<close>,
  registered under its id. Completing the upload runs the flush, which leaves the session as
  it is after the last call, closes the file, removes the id from the registry, and answers
  with the pairs of part number and checksum for the parts 1 to \<open>k\<close>, in this order, where
  \<open>k + 1\<close> is the cursor: the parts that have been written to the file.
\<close>

theorem complete_reports_flushed_parts:
  assumes "write_all md5 (MultipartUploader uid p) ws = (s, None)"
    and "map_of (multipart_uploaders w) uid = Some s" and "uid \<noteq> []"
  shows "close s w =
           (s\<lparr>file_obj := file_close (file_obj s)\<rparr>,
            w\<lparr>multipart_uploaders := AList.delete uid (multipart_uploaders w)\<rparr>, None) \<and>
         closed (file_close (file_obj s)) \<and>
         map_of (AList.delete uid (multipart_uploaders w)) uid = None \<and>
         post md5 cwd app w bucket obj (Some uid) uri gen_id =
           (w\<lparr>multipart_uploaders := AList.delete uid (multipart_uploaders w)\<rparr>,
            Inr (CompleteMultipartUpload
                   (map (\<lambda>i. (i, md5 (the (map_of ws i)))) [1..part_number s - 1])))"
proof -
  note ses = session_of_writes[OF assms(1)]
  from ses(1) have inv: "session_inv md5 ws s"
    by (simp add: session_ok_def)
  let ?s' = "s\<lparr>file_obj := file_close (file_obj s)\<rparr>"
  let ?w' = "w\<lparr>multipart_uploaders := AList.delete uid (multipart_uploaders w)\<rparr>"
  have cl: "close s w = (?s', ?w', None)"
    using assms(2) ses(2)
    by (simp add: close_of_session[OF ses(1)] registry_del_present)
  have "\<forall>i \<in> set [1..part_number s - 1].
          \<exists>b. map_of (buffers s) i = Some b \<and> md5sum b = md5 (the (map_of ws i))"
  proof
    fix i assume "i \<in> set [1..part_number s - 1]"
    then have i: "1 \<le> i \<and> i < part_number s" by auto
    with inv obtain d where "map_of ws i = Some d"
      by (auto simp: session_inv_def)
    with inv show "\<exists>b. map_of (buffers s) i = Some b \<and> md5sum b = md5 (the (map_of ws i))"
      by (simp add: session_inv_def)
  qed
  from part_list_present[OF this]
  have pl: "part_list (buffers ?s') [1..part_number ?s' - 1] =
              Inr (map (\<lambda>i. (i, md5 (the (map_of ws i)))) [1..part_number s - 1])"
    by simp
  have st: "store_object ?s' ?w' = ?w'"
    using ses(2) by (intro store_object_absent) (simp add: map_of_delete_same)
  have "post md5 cwd app w bucket obj (Some uid) uri gen_id =
           (?w', Inr (CompleteMultipartUpload
                   (map (\<lambda>i. (i, md5 (the (map_of ws i)))) [1..part_number s - 1])))"
    using assms(3) pl st
    by (simp add: post_def truthy_def factory_lookup(1)[OF assms(2)] cl)
  with cl show ?thesis
    by (simp add: file_close_def map_of_delete_same)
qed

theorem complete_reports_flushed_parts_witness:
  "post md5_table ''/'' \<lparr>directory = ''/tmp/s3'', bucket_depth = 0\<rparr>
      \<lparr>multipart_uploaders =
         [(''u1'', \<lparr>path = ''/tmp/s3/b/k'', upload_id = ''u1'',
            file_obj = \<lparr>closed = False, content = ''AB''\<rparr>, part_number = 3,
            buffers = [(2, \<lparr>data = None, md5sum = ''9d5ed678fe57bcca610140957afab571''\<rparr>),
                       (1, \<lparr>data = None, md5sum = ''7fc56270e7a70fa81a5935b72eacbe29''\<rparr>)]\<rparr>)],
       files = [''/tmp/s3/b/k''], dirs = [''/tmp/s3'', ''/tmp/s3/b'']\<rparr>
      ''b'' ''k'' (Some ''u1'') [] []
   = (\<lparr>multipart_uploaders = [], files = [''/tmp/s3/b/k''], dirs = [''/tmp/s3'', ''/tmp/s3/b'']\<rparr>,
      Inr (CompleteMultipartUpload
             [(1, ''7fc56270e7a70fa81a5935b72eacbe29''), (2, ''9d5ed678fe57bcca610140957afab571'')]))"
proof -
  let ?s = "\<lparr>path = ''/tmp/s3/b/k'', upload_id = ''u1'',
            file_obj = \<lparr>closed = False, content = ''AB''\<rparr>, part_number = 3,
            buffers = [(2, \<lparr>data = None, md5sum = ''9d5ed678fe57bcca610140957afab571''\<rparr>),
                       (1, \<lparr>data = None, md5sum = ''7fc56270e7a70fa81a5935b72eacbe29''\<rparr>)]\<rparr>"
  let ?w = "\<lparr>multipart_uploaders = [(''u1'', ?s)],
       files = [''/tmp/s3/b/k''], dirs = [''/tmp/s3'', ''/tmp/s3/b'']\<rparr>"
  have ses: "write_all md5_table (MultipartUploader ''u1'' ''/tmp/s3/b/k'') [(2, ''B''), (1, ''A'')] = (?s, None)"
    by (simp add: uploader_eval md5_table_def)
  have reg: "map_of (multipart_uploaders ?w) ''u1'' = Some ?s"
    by simp
  have ne: "''u1'' \<noteq> []" by simp
  have up: "[1..2] = [1, 2::int]"
    by (simp add: upto.simps)
  from complete_reports_flushed_parts[OF ses reg ne, of "''/''" "\<lparr>directory = ''/tmp/s3'', bucket_depth = 0\<rparr>" "''b''" "''k''" "[]" "[]"]
  show ?thesis
    by (simp add: md5_table_def up)
qed

subsection \<open>Claim C8\<close>

text \<open>
  C8, as the claim states it for every session, fails: \<^verbatim>\<open>abort\<close> closes the file, then
  \<^verbatim>\<open>os.unlink\<close> raises \<^verbatim>\<open>OSError\<close> when the destination file is not there, before the id is
  removed. Two uploads of the same key are initiated, \<^verbatim>\<open>u1\<close> and \<^verbatim>\<open>u2\<close>; both sessions
  have the same destination file. The abort of \<^verbatim>\<open>u1\<close> succeeds and deletes the file. The
  abort of \<^verbatim>\<open>u2\<close> then raises \<^verbatim>\<open>OSError\<close> and leaves \<^verbatim>\<open>u2\<close> registered, with its file
  object closed; a later \<^verbatim>\<open>put\<close> of part 2 with the id \<^verbatim>\<open>u2\<close> is accepted and returns the
  checksum, and a \<^verbatim>\<open>put\<close> of part 1 raises \<^verbatim>\<open>ValueError\<close>, from the write to the closed
  file.
\<close>

theorem abort_of_every_session_counterexample:
  "post md5_table ''/'' \<lparr>directory = ''/tmp/s3'', bucket_depth = 0\<rparr>
      \<lparr>multipart_uploaders = [], files = [], dirs = [''/tmp/s3'', ''/tmp/s3/b'']\<rparr>
      ''b'' ''k'' None ''/b/k?uploads'' ''u1''
     = (\<lparr>multipart_uploaders = [(''u1'', MultipartUploader ''u1'' ''/tmp/s3/b/k'')],
         files = [''/tmp/s3/b/k''], dirs = [''/tmp/s3'', ''/tmp/s3/b'']\<rparr>,
        Inr (InitiateMultipartUploadResult ''b'' ''k'' ''u1'')) \<and>
   post md5_table ''/'' \<lparr>directory = ''/tmp/s3'', bucket_depth = 0\<rparr>
      \<lparr>multipart_uploaders = [(''u1'', MultipartUploader ''u1'' ''/tmp/s3/b/k'')],
       files = [''/tmp/s3/b/k''], dirs = [''/tmp/s3'', ''/tmp/s3/b'']\<rparr>
      ''b'' ''k'' None ''/b/k?uploads'' ''u2''
     = (\<lparr>multipart_uploaders = [(''u1'', MultipartUploader ''u1'' ''/tmp/s3/b/k''),
                                (''u2'', MultipartUploader ''u2'' ''/tmp/s3/b/k'')],
         files = [''/tmp/s3/b/k''], dirs = [''/tmp/s3'', ''/tmp/s3/b'']\<rparr>,
        Inr (InitiateMultipartUploadResult ''b'' ''k'' ''u2'')) \<and>
   delete md5_table ''/'' \<lparr>directory = ''/tmp/s3'', bucket_depth = 0\<rparr>
      \<lparr>multipart_uploaders = [(''u1'', MultipartUploader ''u1'' ''/tmp/s3/b/k''),
                              (''u2'', MultipartUploader ''u2'' ''/tmp/s3/b/k'')],
       files = [''/tmp/s3/b/k''], dirs = [''/tmp/s3'', ''/tmp/s3/b'']\<rparr>
      ''b'' ''k'' (Some ''u1'')
     = (\<lparr>multipart_uploaders = [(''u2'', MultipartUploader ''u2'' ''/tmp/s3/b/k'')],
         files = [], dirs = [''/tmp/s3'', ''/tmp/s3/b'']\<rparr>, Inr 204) \<and>
   delete md5_table ''/'' \<lparr>directory = ''/tmp/s3'', bucket_depth = 0\<rparr>
      \<lparr>multipart_uploaders = [(''u2'', MultipartUploader ''u2'' ''/tmp/s3/b/k'')],
       files = [], dirs = [''/tmp/s3'', ''/tmp/s3/b'']\<rparr>
      ''b'' ''k'' (Some ''u2'')
     = (\<lparr>multipart_uploaders =
           [(''u2'', (MultipartUploader ''u2'' ''/tmp/s3/b/k'')
                       \<lparr>file_obj := \<lparr>closed = True, content = []\<rparr>\<rparr>)],
         files = [], dirs = [''/tmp/s3'', ''/tmp/s3/b'']\<rparr>, Inl OSError) \<and>
   snd (put md5_table ''/'' \<lparr>directory = ''/tmp/s3'', bucket_depth = 0\<rparr>
          \<lparr>multipart_uploaders =
             [(''u2'', (MultipartUploader ''u2'' ''/tmp/s3/b/k'')
                         \<lparr>file_obj := \<lparr>closed = True, content = []\<rparr>\<rparr>)],
           files = [], dirs = [''/tmp/s3'', ''/tmp/s3/b'']\<rparr>
          ''b'' ''k'' (Some ''2'') (Some ''u2'') ''B'')
     = Inr ''9d5ed678fe57bcca610140957afab571'' \<and>
   snd (put md5_table ''/'' \<lparr>directory = ''/tmp/s3'', bucket_depth = 0\<rparr>
          \<lparr>multipart_uploaders =
             [(''u2'', (MultipartUploader ''u2'' ''/tmp/s3/b/k'')
                         \<lparr>file_obj := \<lparr>closed = True, content = []\<rparr>\<rparr>)],
           files = [], dirs = [''/tmp/s3'', ''/tmp/s3/b'']\<rparr>
          ''b'' ''k'' (Some ''1'') (Some ''u2'') ''A'')
     = Inl ValueError"
proof (intro conjI)
  let ?app = "\<lparr>directory = ''/tmp/s3'', bucket_depth = 0\<rparr>"
  have chk: "checked_object_path md5_table ''/'' ?app
               \<lparr>multipart_uploaders = r, files = f, dirs = [''/tmp/s3'', ''/tmp/s3/b'']\<rparr> ''b'' ''k''
             = Inr ''/tmp/s3/b/k''" for r f
    by (simp add: path_eval handler_eval)
  have ens: "ensure_directory \<lparr>multipart_uploaders = r, files = f, dirs = [''/tmp/s3'', ''/tmp/s3/b'']\<rparr>
               ''/tmp/s3/b/k''
             = \<lparr>multipart_uploaders = r, files = f, dirs = [''/tmp/s3'', ''/tmp/s3/b'']\<rparr>" for r f
    by (simp add: ensure_directory_def exists_path_def isdir_def dirname_def Let_def)
  show "post md5_table ''/'' ?app
      \<lparr>multipart_uploaders = [], files = [], dirs = [''/tmp/s3'', ''/tmp/s3/b'']\<rparr>
      ''b'' ''k'' None ''/b/k?uploads'' ''u1''
     = (\<lparr>multipart_uploaders = [(''u1'', MultipartUploader ''u1'' ''/tmp/s3/b/k'')],
         files = [''/tmp/s3/b/k''], dirs = [''/tmp/s3'', ''/tmp/s3/b'']\<rparr>,
        Inr (InitiateMultipartUploadResult ''b'' ''k'' ''u1''))"
    by (simp add: post_def chk ens truthy_def endswith_def MultipartUploaderFactory_def
          MultipartUploader_def Let_def)
  show "post md5_table ''/'' ?app
      \<lparr>multipart_uploaders = [(''u1'', MultipartUploader ''u1'' ''/tmp/s3/b/k'')],
       files = [''/tmp/s3/b/k''], dirs = [''/tmp/s3'', ''/tmp/s3/b'']\<rparr>
      ''b'' ''k'' None ''/b/k?uploads'' ''u2''
     = (\<lparr>multipart_uploaders = [(''u1'', MultipartUploader ''u1'' ''/tmp/s3/b/k''),
                                (''u2'', MultipartUploader ''u2'' ''/tmp/s3/b/k'')],
         files = [''/tmp/s3/b/k''], dirs = [''/tmp/s3'', ''/tmp/s3/b'']\<rparr>,
        Inr (InitiateMultipartUploadResult ''b'' ''k'' ''u2''))"
    by (simp add: post_def chk ens truthy_def endswith_def MultipartUploaderFactory_def
          MultipartUploader_def Let_def)
  show "delete md5_table ''/'' ?app
      \<lparr>multipart_uploaders = [(''u1'', MultipartUploader ''u1'' ''/tmp/s3/b/k''),
                              (''u2'', MultipartUploader ''u2'' ''/tmp/s3/b/k'')],
       files = [''/tmp/s3/b/k''], dirs = [''/tmp/s3'', ''/tmp/s3/b'']\<rparr>
      ''b'' ''k'' (Some ''u1'')
     = (\<lparr>multipart_uploaders = [(''u2'', MultipartUploader ''u2'' ''/tmp/s3/b/k'')],
         files = [], dirs = [''/tmp/s3'', ''/tmp/s3/b'']\<rparr>, Inr 204)"
    by (simp add: delete_def abort_def handler_eval MultipartUploader_def Let_def)
  show "delete md5_table ''/'' ?app
      \<lparr>multipart_uploaders = [(''u2'', MultipartUploader ''u2'' ''/tmp/s3/b/k'')],
       files = [], dirs = [''/tmp/s3'', ''/tmp/s3/b'']\<rparr>
      ''b'' ''k'' (Some ''u2'')
     = (\<lparr>multipart_uploaders =
           [(''u2'', (MultipartUploader ''u2'' ''/tmp/s3/b/k'')
                       \<lparr>file_obj := \<lparr>closed = True, content = []\<rparr>\<rparr>)],
         files = [], dirs = [''/tmp/s3'', ''/tmp/s3/b'']\<rparr>, Inl OSError)"
    by (simp add: delete_def abort_def handler_eval MultipartUploader_def open_w_def Let_def)
  show "snd (put md5_table ''/'' ?app
          \<lparr>multipart_uploaders =
             [(''u2'', (MultipartUploader ''u2'' ''/tmp/s3/b/k'')
                         \<lparr>file_obj := \<lparr>closed = True, content = []\<rparr>\<rparr>)],
           files = [], dirs = [''/tmp/s3'', ''/tmp/s3/b'']\<rparr>
          ''b'' ''k'' (Some ''2'') (Some ''u2'') ''B'')
     = Inr ''9d5ed678fe57bcca610140957afab571''"
    by (simp add: put_def chk ens truthy_def py_int_def is_space_def is_digit_def digit_value_def
          MultipartUploaderFactory_def store_object_def uploader_eval md5_table_def Let_def)
  show "snd (put md5_table ''/'' ?app
          \<lparr>multipart_uploaders =
             [(''u2'', (MultipartUploader ''u2'' ''/tmp/s3/b/k'')
                         \<lparr>file_obj := \<lparr>closed = True, content = []\<rparr>\<rparr>)],
           files = [], dirs = [''/tmp/s3'', ''/tmp/s3/b'']\<rparr>
          ''b'' ''k'' (Some ''1'') (Some ''u2'') ''A'')
     = Inl ValueError"
    by (simp add: put_def chk ens truthy_def py_int_def is_space_def is_digit_def digit_value_def
          MultipartUploaderFactory_def store_object_def uploader_eval md5_table_def Let_def)
qed

text \<open>
  C8, amended. Let the upload id be registered with its session \<open>u\<close>, whatever parts the
  session has received, none included. \<^verbatim>\<open>abort\<close> closes the file object. When the
  destination file exists, the \<^verbatim>\<open>delete\<close> handler with this id succeeds with status 204
  through \<^verbatim>\<open>abort\<close>, which deletes the destination file and removes the id from the
  registry; afterwards the lookup of the id finds no session, and every \<^verbatim>\<open>put\<close> of a part
  with this id that passes the path checks and whose directory exists, so that no directory
  has to be created, raises \<^verbatim>\<open>HTTPError(404)\<close>, no such upload, and changes nothing. When
  the destination file does not exist, \<^verbatim>\<open>abort\<close> raises \<^verbatim>\<open>OSError\<close> once the file object is
  closed, the handler raises it too, and the id stays registered with the closed session.
\<close>

theorem abort_removes_upload:
  assumes "map_of (multipart_uploaders w) uid = Some u" and "upload_id u = uid"
    and "uid \<noteq> []"
  shows "closed (file_obj (fst (abort u w))) \<and>
         (isfile w (path u) \<longrightarrow>
            (\<exists>w'. delete md5 cwd app w bucket obj (Some uid) = (w', Inr 204) \<and>
                  abort u w = (u\<lparr>file_obj := file_close (file_obj u)\<rparr>, w', None) \<and>
                  \<not> isfile w' (path u) \<and>
                  map_of (multipart_uploaders w') uid = None \<and>
                  MultipartUploaderFactory w' uid None = (None, w') \<and>
                  (\<forall>bucket' obj' q ps pn body.
                     checked_object_path md5 cwd app w' bucket' obj' = Inr q \<and>
                     exists_path w' (dirname q) \<and> py_int ps = Inr pn \<longrightarrow>
                     put md5 cwd app w' bucket' obj' (Some ps) (Some uid) body =
                       (w', Inl (HTTPError 404 ''No such upload ID''))))) \<and>
         (\<not> isfile w (path u) \<longrightarrow>
            abort u w = (u\<lparr>file_obj := file_close (file_obj u)\<rparr>, w, Some OSError) \<and>
            snd (delete md5 cwd app w bucket obj (Some uid)) = Inl OSError \<and>
            map_of (multipart_uploaders (fst (delete md5 cwd app w bucket obj (Some uid)))) uid =
              Some (u\<lparr>file_obj := file_close (file_obj u)\<rparr>))"
proof (intro conjI impI)
  let ?u' = "u\<lparr>file_obj := file_close (file_obj u)\<rparr>"
  show "closed (file_obj (fst (abort u w)))"
    by (simp add: abort_def Let_def file_close_def split: sum.splits)
  {
    assume f: "isfile w (path u)"
    let ?w' = "w\<lparr>files := removeAll (path u) (files w),
                multipart_uploaders := AList.delete (upload_id u) (multipart_uploaders w)\<rparr>"
    have ab: "abort u w = (?u', ?w', None)"
      using assms f by (intro abort_registered) simp_all
    have gone: "map_of (multipart_uploaders ?w') uid = None"
      using assms(2) by (simp add: map_of_delete_same)
    have st: "store_object ?u' ?w' = ?w'"
      using assms(2) by (intro store_object_absent) (simp add: map_of_delete_same)
    have del: "delete md5 cwd app w bucket obj (Some uid) = (?w', Inr 204)"
      using assms(3) st
      by (simp add: delete_def truthy_def factory_lookup(1)[OF assms(1)] ab)
    have nofile: "\<not> isfile ?w' (path u)"
      by (simp add: isfile_def)
    have later: "put md5 cwd app ?w' bucket' obj' (Some ps) (Some uid) body =
                   (?w', Inl (HTTPError 404 ''No such upload ID''))"
      if "checked_object_path md5 cwd app ?w' bucket' obj' = Inr q"
        "exists_path ?w' (dirname q)" "py_int ps = Inr pn"
      for bucket' obj' q ps pn body
    proof -
      have "ensure_directory ?w' q = ?w'"
        using that(2) by (simp add: ensure_directory_def Let_def)
      with put_part_no_upload[OF that(1) gone assms(3) that(3)] show ?thesis
        by simp
    qed
    from ab del nofile gone later factory_lookup(2)[OF gone]
    show "\<exists>w'. delete md5 cwd app w bucket obj (Some uid) = (w', Inr 204) \<and>
                  abort u w = (u\<lparr>file_obj := file_close (file_obj u)\<rparr>, w', None) \<and>
                  \<not> isfile w' (path u) \<and>
                  map_of (multipart_uploaders w') uid = None \<and>
                  MultipartUploaderFactory w' uid None = (None, w') \<and>
                  (\<forall>bucket' obj' q ps pn body.
                     checked_object_path md5 cwd app w' bucket' obj' = Inr q \<and>
                     exists_path w' (dirname q) \<and> py_int ps = Inr pn \<longrightarrow>
                     put md5 cwd app w' bucket' obj' (Some ps) (Some uid) body =
                       (w', Inl (HTTPError 404 ''No such upload ID'')))"
      by (intro exI[of _ ?w']) simp
  }
  {
    assume nf: "\<not> isfile w (path u)"
    show ab: "abort u w = (?u', w, Some OSError)"
      using nf by (simp add: abort_def Let_def)
    have reg: "map_of (multipart_uploaders w) (upload_id ?u') = Some u"
      using assms(1,2) by simp
    have del: "delete md5 cwd app w bucket obj (Some uid) = (store_object ?u' w, Inl OSError)"
      using assms(3) by (simp add: delete_def truthy_def factory_lookup(1)[OF assms(1)] ab)
    show "snd (delete md5 cwd app w bucket obj (Some uid)) = Inl OSError"
      by (simp add: del)
    show "map_of (multipart_uploaders (fst (delete md5 cwd app w bucket obj (Some uid)))) uid =
              Some ?u'"
      using store_object_lookup[OF reg] assms(2) by (simp add: del)
  }
qed

theorem abort_removes_upload_witness:
  "delete md5_table ''/'' \<lparr>directory = ''/tmp/s3'', bucket_depth = 0\<rparr>
      \<lparr>multipart_uploaders = [(''u1'', MultipartUploader ''u1'' ''/tmp/s3/b/k'')],
       files = [''/tmp/s3/b/k''], dirs = [''/tmp/s3'', ''/tmp/s3/b'']\<rparr>
      ''b'' ''k'' (Some ''u1'')
     = (\<lparr>multipart_uploaders = [], files = [], dirs = [''/tmp/s3'', ''/tmp/s3/b'']\<rparr>, Inr 204) \<and>
   put md5_table ''/'' \<lparr>directory = ''/tmp/s3'', bucket_depth = 0\<rparr>
          \<lparr>multipart_uploaders = [], files = [], dirs = [''/tmp/s3'', ''/tmp/s3/b'']\<rparr>
          ''b'' ''k'' (Some ''1'') (Some ''u1'') ''A''
     = (\<lparr>multipart_uploaders = [], files = [], dirs = [''/tmp/s3'', ''/tmp/s3/b'']\<rparr>,
        Inl (HTTPError 404 ''No such upload ID'')) \<and>
   snd (delete md5_table ''/'' \<lparr>directory = ''/tmp/s3'', bucket_depth = 0\<rparr>
      \<lparr>multipart_uploaders = [(''u1'', MultipartUploader ''u1'' ''/tmp/s3/b/k'')],
       files = [], dirs = [''/tmp/s3'', ''/tmp/s3/b'']\<rparr>
      ''b'' ''k'' (Some ''u1'')) = Inl OSError"
proof -
  let ?u = "MultipartUploader ''u1'' ''/tmp/s3/b/k''"
  let ?w = "\<lparr>multipart_uploaders = [(''u1'', ?u)],
       files = [''/tmp/s3/b/k''], dirs = [''/tmp/s3'', ''/tmp/s3/b'']\<rparr>"
  let ?v = "\<lparr>multipart_uploaders = [(''u1'', ?u)],
       files = [], dirs = [''/tmp/s3'', ''/tmp/s3/b'']\<rparr>"
  let ?w' = "\<lparr>multipart_uploaders = [], files = [], dirs = [''/tmp/s3'', ''/tmp/s3/b'']\<rparr>"
  let ?app = "\<lparr>directory = ''/tmp/s3'', bucket_depth = 0\<rparr>"
  have reg: "map_of (multipart_uploaders ?w) ''u1'' = Some ?u" by simp
  have regv: "map_of (multipart_uploaders ?v) ''u1'' = Some ?u" by simp
  have uid: "upload_id ?u = ''u1''" by (simp add: MultipartUploader_def)
  have ne: "''u1'' \<noteq> []" by simp
  have f: "isfile ?w (path ?u)" by (simp add: isfile_def MultipartUploader_def)
  have nf: "\<not> isfile ?v (path ?u)" by (simp add: isfile_def MultipartUploader_def)
  have chk: "checked_object_path md5_table ''/'' ?app ?w' ''b'' ''k'' = Inr ''/tmp/s3/b/k''"
    by (simp add: path_eval handler_eval)
  have ex: "exists_path ?w' (dirname ''/tmp/s3/b/k'')"
    by (simp add: exists_path_def isdir_def dirname_def)
  have i1: "py_int ''1'' = Inr 1"
    by (simp add: handler_eval)
  from abort_removes_upload[OF reg uid ne, of md5_table "''/''" ?app "''b''" "''k''"] f
  obtain w' where w': "delete md5_table ''/'' ?app ?w ''b'' ''k'' (Some ''u1'') = (w', Inr 204)"
    and later: "\<forall>bucket' obj' q ps pn body.
                 checked_object_path md5_table ''/'' ?app w' bucket' obj' = Inr q \<and>
                 exists_path w' (dirname q) \<and> py_int ps = Inr pn \<longrightarrow>
                 put md5_table ''/'' ?app w' bucket' obj' (Some ps) (Some ''u1'') body =
                   (w', Inl (HTTPError 404 ''No such upload ID''))"
    by blast
  have "delete md5_table ''/'' ?app ?w ''b'' ''k'' (Some ''u1'') = (?w', Inr 204)"
    by (simp add: delete_def abort_def handler_eval MultipartUploader_def)
  with w' have eq: "w' = ?w'" by simp
  from abort_removes_upload[OF regv uid ne, of md5_table "''/''" ?app "''b''" "''k''"] nf
  have os: "snd (delete md5_table ''/'' ?app ?v ''b'' ''k'' (Some ''u1'')) = Inl OSError"
    by blast
  from w' later chk ex i1 os show ?thesis
    unfolding eq by blast
qed

subsection \<open>Claim C9\<close>

text \<open>
  C9, as the claim states it, fails: the step is \<^verbatim>\<open>del multipart_uploaders[self.upload_id]\<close>,
  which raises \<^verbatim>\<open>KeyError\<close> for an id that is not in the registry. Here \<^verbatim>\<open>abort\<close> is called
  on an uploader whose file exists and whose id is not registered.
\<close>

theorem deregistration_idempotent_counterexample:
  "snd (snd (abort (MultipartUploader ''u1'' ''/tmp/s3/b/k'')
               \<lparr>multipart_uploaders = [], files = [''/tmp/s3/b/k''], dirs = []\<rparr>)) = Some KeyError"
  by (simp add: abort_def handler_eval MultipartUploader_def open_w_def)


text \<open>
  C9, amended. When the id of the uploader is not in the registry, the removal raises
  \<^verbatim>\<open>KeyError\<close>: \<^verbatim>\<open>abort\<close> raises it once the file has been closed and deleted, \<^verbatim>\<open>close\<close>
  raises it once the flush and the closing of the file have succeeded, and the registry is
  left as it was.
\<close>

theorem deregistration_raises_when_absent:
  assumes "map_of (multipart_uploaders w) (upload_id u) = None"
  shows "registry_del (multipart_uploaders w) (upload_id u) = Inl KeyError \<and>
         (isfile w (path u) \<longrightarrow> snd (snd (abort u w)) = Some KeyError) \<and>
         (\<forall>u1. trigger_write_completion u = (u1, None) \<and> \<not> closed (file_obj u1) \<longrightarrow>
               snd (snd (close u w)) = Some KeyError \<and>
               multipart_uploaders (fst (snd (close u w))) = multipart_uploaders w)"
proof -
  have r: "registry_del (multipart_uploaders w) (upload_id u) = Inl KeyError"
    by (rule registry_del_absent[OF assms])
  have a: "snd (snd (abort u w)) = Some KeyError" if "isfile w (path u)"
    using that r by (simp add: abort_def Let_def)
  have twc_id: "upload_id u1 = upload_id u" if "trigger_write_completion u = (u1, e)" for u1 e
    using that
  proof (induction u arbitrary: u1 e rule: trigger_write_completion.induct)
    case (1 u)
    then show ?case
      by (subst (asm) (2) trigger_write_completion.simps)
         (auto split: option.splits sum.splits)
  qed
  have c: "snd (snd (close u w)) = Some KeyError \<and>
           multipart_uploaders (fst (snd (close u w))) = multipart_uploaders w"
    if "trigger_write_completion u = (u1, None)" "\<not> closed (file_obj u1)" for u1
    using that r twc_id[OF that(1)]
    by (simp add: close_def Let_def file_flush_def)
  from r a c show ?thesis
    by blast
qed

theorem deregistration_raises_when_absent_witness:
  "map_of (multipart_uploaders \<lparr>multipart_uploaders = [], files = [''/tmp/s3/b/k''], dirs = []\<rparr>)
      (upload_id (MultipartUploader ''u1'' ''/tmp/s3/b/k'')) = None \<and>
   snd (snd (abort (MultipartUploader ''u1'' ''/tmp/s3/b/k'')
               \<lparr>multipart_uploaders = [], files = [''/tmp/s3/b/k''], dirs = []\<rparr>)) = Some KeyError \<and>
   snd (snd (close (MultipartUploader ''u1'' ''/tmp/s3/b/k'')
               \<lparr>multipart_uploaders = [], files = [''/tmp/s3/b/k''], dirs = []\<rparr>)) = Some KeyError"
proof -
  let ?u = "MultipartUploader ''u1'' ''/tmp/s3/b/k''"
  let ?w = "\<lparr>multipart_uploaders = [], files = [''/tmp/s3/b/k''], dirs = []\<rparr>"
  have absent: "map_of (multipart_uploaders ?w) (upload_id ?u) = None" by simp
  have f: "isfile ?w (path ?u)" by (simp add: isfile_def MultipartUploader_def)
  have t: "trigger_write_completion ?u = (?u, None)" "\<not> closed (file_obj ?u)"
    by (simp_all add: uploader_eval)
  from deregistration_raises_when_absent[OF absent] absent f t show ?thesis
    by blast
qed


subsection \<open>The binary searches and the listing loop\<close>

text \<open>
  On a sorted list, between \<open>lo\<close> and \<open>hi\<close>, \<open>bisect_right\<close> returns the position that
  separates the elements at most \<open>x\<close> from those greater than \<open>x\<close>, and \<open>bisect_left\<close> the
  position that separates the elements less than \<open>x\<close> from those at least \<open>x\<close>.
\<close>

lemma bisect_right_loop_spec:
  assumes "sorted a" "lo \<le> hi" "hi \<le> length a"
  shows "lo \<le> bisect_right_loop a x lo hi \<and> bisect_right_loop a x lo hi \<le> hi \<and>
         (\<forall>i. lo \<le> i \<and> i < bisect_right_loop a x lo hi \<longrightarrow> a ! i \<le> x) \<and>
         (\<forall>i. bisect_right_loop a x lo hi \<le> i \<and> i < hi \<longrightarrow> x < a ! i)"
  using assms
proof (induction a x lo hi rule: bisect_right_loop.induct)
  case (1 a x lo hi)
  show ?case
  proof (cases "lo < hi")
    case False
    then have "bisect_right_loop a x lo hi = lo"
      by (simp add: bisect_right_loop.simps[of a x lo hi])
    with "1.prems" False show ?thesis
      by auto
  next
    case True
    define mid where "mid = (lo + hi) div 2"
    have mid: "lo \<le> mid" "mid < hi"
      using True by (simp_all add: mid_def)
    show ?thesis
    proof (cases "x < a ! mid")
      case less: True
      have eq: "bisect_right_loop a x lo hi = bisect_right_loop a x lo mid"
        using True less by (simp add: bisect_right_loop.simps[of a x lo hi] mid_def Let_def)
      have IH: "lo \<le> bisect_right_loop a x lo mid \<and> bisect_right_loop a x lo mid \<le> mid \<and>
         (\<forall>i. lo \<le> i \<and> i < bisect_right_loop a x lo mid \<longrightarrow> a ! i \<le> x) \<and>
         (\<forall>i. bisect_right_loop a x lo mid \<le> i \<and> i < mid \<longrightarrow> x < a ! i)"
        using "1.IH"(1)[OF True mid_def less] "1.prems" mid by simp
      have above: "x < a ! i" if "mid \<le> i" "i < hi" for i
      proof -
        have "a ! mid \<le> a ! i"
          using that "1.prems" by (intro sorted_nth_mono) simp_all
        with less show ?thesis by simp
      qed
      show ?thesis
        unfolding eq
      proof (intro conjI allI impI)
        show "lo \<le> bisect_right_loop a x lo mid" using IH by simp
        show "bisect_right_loop a x lo mid \<le> hi" using IH mid by simp
      next
        fix i assume "lo \<le> i \<and> i < bisect_right_loop a x lo mid"
        then show "a ! i \<le> x" using IH by simp
      next
        fix i assume i: "bisect_right_loop a x lo mid \<le> i \<and> i < hi"
        show "x < a ! i"
        proof (cases "i < mid")
          case True
          with i IH show ?thesis by simp
        next
          case False
          with i above[of i] show ?thesis by simp
        qed
      qed
    next
      case geq: False
      have eq: "bisect_right_loop a x lo hi = bisect_right_loop a x (mid + 1) hi"
        using True geq by (simp add: bisect_right_loop.simps[of a x lo hi] mid_def Let_def)
      have IH: "mid + 1 \<le> bisect_right_loop a x (mid + 1) hi \<and> bisect_right_loop a x (mid + 1) hi \<le> hi \<and>
         (\<forall>i. mid + 1 \<le> i \<and> i < bisect_right_loop a x (mid + 1) hi \<longrightarrow> a ! i \<le> x) \<and>
         (\<forall>i. bisect_right_loop a x (mid + 1) hi \<le> i \<and> i < hi \<longrightarrow> x < a ! i)"
        using "1.IH"(2)[OF True mid_def geq] "1.prems" mid by simp
      have below: "a ! i \<le> x" if "i \<le> mid" for i
      proof -
        have "a ! i \<le> a ! mid"
          using that "1.prems" mid by (intro sorted_nth_mono) simp_all
        with geq show ?thesis by simp
      qed
      show ?thesis
        unfolding eq
      proof (intro conjI allI impI)
        show "lo \<le> bisect_right_loop a x (mid + 1) hi" using IH mid by simp
        show "bisect_right_loop a x (mid + 1) hi \<le> hi" using IH by simp
      next
        fix i assume i: "lo \<le> i \<and> i < bisect_right_loop a x (mid + 1) hi"
        show "a ! i \<le> x"
        proof (cases "i \<le> mid")
          case True
          then show ?thesis by (rule below)
        next
          case False
          with i IH show ?thesis by simp
        qed
      next
        fix i assume "bisect_right_loop a x (mid + 1) hi \<le> i \<and> i < hi"
        then show "x < a ! i" using IH by simp
      qed
    qed
  qed
qed

lemma bisect_left_loop_spec:
  assumes "sorted a" "lo \<le> hi" "hi \<le> length a"
  shows "lo \<le> bisect_left_loop a x lo hi \<and> bisect_left_loop a x lo hi \<le> hi \<and>
         (\<forall>i. lo \<le> i \<and> i < bisect_left_loop a x lo hi \<longrightarrow> a ! i < x) \<and>
         (\<forall>i. bisect_left_loop a x lo hi \<le> i \<and> i < hi \<longrightarrow> x \<le> a ! i)"
  using assms
proof (induction a x lo hi rule: bisect_left_loop.induct)
  case (1 a x lo hi)
  show ?case
  proof (cases "lo < hi")
    case False
    then have "bisect_left_loop a x lo hi = lo"
      by (simp add: bisect_left_loop.simps[of a x lo hi])
    with "1.prems" False show ?thesis
      by auto
  next
    case True
    define mid where "mid = (lo + hi) div 2"
    have mid: "lo \<le> mid" "mid < hi"
      using True by (simp_all add: mid_def)
    show ?thesis
    proof (cases "a ! mid < x")
      case less: True
      have eq: "bisect_left_loop a x lo hi = bisect_left_loop a x (mid + 1) hi"
        using True less by (simp add: bisect_left_loop.simps[of a x lo hi] mid_def Let_def)
      have IH: "mid + 1 \<le> bisect_left_loop a x (mid + 1) hi \<and> bisect_left_loop a x (mid + 1) hi \<le> hi \<and>
         (\<forall>i. mid + 1 \<le> i \<and> i < bisect_left_loop a x (mid + 1) hi \<longrightarrow> a ! i < x) \<and>
         (\<forall>i. bisect_left_loop a x (mid + 1) hi \<le> i \<and> i < hi \<longrightarrow> x \<le> a ! i)"
        using "1.IH"(1)[OF True mid_def less] "1.prems" mid by simp
      have below: "a ! i < x" if "i \<le> mid" for i
      proof -
        have "a ! i \<le> a ! mid"
          using that "1.prems" mid by (intro sorted_nth_mono) simp_all
        with less show ?thesis by simp
      qed
      show ?thesis
        unfolding eq
      proof (intro conjI allI impI)
        show "lo \<le> bisect_left_loop a x (mid + 1) hi" using IH mid by simp
        show "bisect_left_loop a x (mid + 1) hi \<le> hi" using IH by simp
      next
        fix i assume i: "lo \<le> i \<and> i < bisect_left_loop a x (mid + 1) hi"
        show "a ! i < x"
        proof (cases "i \<le> mid")
          case True
          then show ?thesis by (rule below)
        next
          case False
          with i IH show ?thesis by simp
        qed
      next
        fix i assume "bisect_left_loop a x (mid + 1) hi \<le> i \<and> i < hi"
        then show "x \<le> a ! i" using IH by simp
      qed
    next
      case geq: False
      have eq: "bisect_left_loop a x lo hi = bisect_left_loop a x lo mid"
        using True geq by (simp add: bisect_left_loop.simps[of a x lo hi] mid_def Let_def)
      have IH: "lo \<le> bisect_left_loop a x lo mid \<and> bisect_left_loop a x lo mid \<le> mid \<and>
         (\<forall>i. lo \<le> i \<and> i < bisect_left_loop a x lo mid \<longrightarrow> a ! i < x) \<and>
         (\<forall>i. bisect_left_loop a x lo mid \<le> i \<and> i < mid \<longrightarrow> x \<le> a ! i)"
        using "1.IH"(2)[OF True mid_def geq] "1.prems" mid by simp
      have above: "x \<le> a ! i" if "mid \<le> i" "i < hi" for i
      proof -
        have "a ! mid \<le> a ! i"
          using that "1.prems" by (intro sorted_nth_mono) simp_all
        with geq show ?thesis by simp
      qed
      show ?thesis
        unfolding eq
      proof (intro conjI allI impI)
        show "lo \<le> bisect_left_loop a x lo mid" using IH by simp
        show "bisect_left_loop a x lo mid \<le> hi" using IH mid by simp
      next
        fix i assume "lo \<le> i \<and> i < bisect_left_loop a x lo mid"
        then show "a ! i < x" using IH by simp
      next
        fix i assume i: "bisect_left_loop a x lo mid \<le> i \<and> i < hi"
        show "x \<le> a ! i"
        proof (cases "i < mid")
          case True
          with i IH show ?thesis by simp
        next
          case False
          with i above[of i] show ?thesis by simp
        qed
      qed
    qed
  qed
qed

text \<open>
  The loop in closed form: it collects the keys of the longest run with the prefix at the
  head of the list, as long as fewer than \<open>max_keys\<close> keys have been collected.
\<close>

lemma list_loop_run:
  "list_loop prefix max_keys ks acc mk =
     (let m = takeWhile (\<lambda>k. startswith k prefix) ks;
          n = nat (max_keys - int (length acc))
      in (acc @ take n m, (if take n m = [] then mk else last (take n m)), n < length m))"
proof (induction ks arbitrary: acc mk)
  case Nil
  show ?case by simp
next
  case (Cons k ks)
  show ?case
  proof (cases "startswith k prefix")
    case False
    then show ?thesis by simp
  next
    case True
    show ?thesis
    proof (cases "max_keys \<le> int (length acc)")
      case full: True
      then have "nat (max_keys - int (length acc)) = 0" by simp
      with True full show ?thesis by (simp add: Let_def)
    next
      case room: False
      then obtain n' where n': "nat (max_keys - int (length acc)) = Suc n'"
        by (cases "nat (max_keys - int (length acc))") auto
      then have n'': "nat (max_keys - int (length (acc @ [k]))) = n'"
        by simp
      show ?thesis
        using True room
        by (simp add: Cons.IH Let_def n' n'' del: length_append)
    qed
  qed
qed


lemmas listing_eval =
  list_keys_def start_pos_def bisect_right_def bisect_left_def
  bisect_right_loop.simps bisect_left_loop.simps startswith_def

subsection \<open>Claim C6\<close>

text \<open>
  C6. The listing goes forward over the sorted names from the start position. It stops, with
  \<^verbatim>\<open>IsTruncated\<close> false, at the first key that does not start with the prefix (or at the end
  of the names), so it collects keys of the run \<open>m\<close> of keys with the prefix only; it
  collects at most \<open>max_keys\<close> of them, and stops with \<^verbatim>\<open>IsTruncated\<close> true when \<open>max_keys\<close>
  keys are collected and the next key still starts with the prefix. The marker returned is
  the last key collected, or the marker supplied when no key is collected. For the keys
  a, ab, b, c in any order, the empty prefix, the empty marker and \<open>max_keys = 1\<close> the answer
  is the key a, the marker a and \<^verbatim>\<open>IsTruncated\<close> true.
\<close>

theorem listing_stops_at_prefix_end_or_max_keys:
  "list_keys object_names prefix marker max_keys =
     (let ks = drop (start_pos (sort object_names) marker prefix) (sort object_names);
          m = takeWhile (\<lambda>k. startswith k prefix) ks;
          keys = take (nat max_keys) m
      in (keys, (if keys = [] then marker else last keys), nat max_keys < length m)) \<and>
   list_keys [''b'', ''a'', ''c'', ''ab''] [] [] 1 = ([''a''], ''a'', True)"
proof
  show "list_keys object_names prefix marker max_keys =
     (let ks = drop (start_pos (sort object_names) marker prefix) (sort object_names);
          m = takeWhile (\<lambda>k. startswith k prefix) ks;
          keys = take (nat max_keys) m
      in (keys, (if keys = [] then marker else last keys), nat max_keys < length m))"
    by (simp add: list_keys_def list_loop_run Let_def)
  show "list_keys [''b'', ''a'', ''c'', ''ab''] [] [] 1 = ([''a''], ''a'', True)"
    by (simp add: listing_eval)
qed

theorem listing_stops_at_prefix_end_or_max_keys_witness:
  "list_keys [''b'', ''a'', ''c'', ''ab'', ''abc''] ''a'' [] 2 = ([''a'', ''ab''], ''ab'', True) \<and>
   list_keys [''b'', ''a'', ''c'', ''ab''] ''a'' [] 2 = ([''a'', ''ab''], ''ab'', False) \<and>
   list_keys [''b'', ''a'', ''c'', ''ab''] ''x'' ''m'' 2 = ([], ''m'', False)"
proof -
  have srt: "sort [''b'', ''a'', ''c'', ''ab'', ''abc''] = [''a'', ''ab'', ''abc'', ''b'', ''c'']"
            "sort [''b'', ''a'', ''c'', ''ab''] = [''a'', ''ab'', ''b'', ''c'']"
    by simp_all
  have sp: "start_pos [''a'', ''ab'', ''abc'', ''b'', ''c''] [] ''a'' = 0"
           "start_pos [''a'', ''ab'', ''b'', ''c''] [] ''a'' = 0"
           "start_pos [''a'', ''ab'', ''b'', ''c''] ''m'' ''x'' = 4"
    by (simp_all add: listing_eval)
  from listing_stops_at_prefix_end_or_max_keys[of "[''b'', ''a'', ''c'', ''ab'', ''abc'']" "''a''" "[]" 2]
       listing_stops_at_prefix_end_or_max_keys[of "[''b'', ''a'', ''c'', ''ab'']" "''a''" "[]" 2]
       listing_stops_at_prefix_end_or_max_keys[of "[''b'', ''a'', ''c'', ''ab'']" "''x''" "''m''" 2]
  show ?thesis
    by (simp add: srt sp startswith_def Let_def)
qed

subsection \<open>Claim C7\<close>

text \<open>
  C7. On sorted names \<open>a\<close> the scan starts at \<open>s\<close>, found in two steps. \<open>s1\<close> is 0 when the
  marker is empty, and otherwise the smallest index whose key is greater than the marker:
  the keys before \<open>s1\<close> are at most the marker, the keys from \<open>s1\<close> on are greater. With an
  empty prefix \<open>s = s1\<close>; otherwise \<open>s\<close> is the smallest index at or after \<open>s1\<close> whose key is
  at least the prefix: \<open>s1 \<le> s\<close>, the keys from \<open>s1\<close> to before \<open>s\<close> are less than the prefix,
  the keys from \<open>s\<close> on are at least the prefix. For the keys a, ab, b, c, the empty prefix,
  marker a and \<open>max_keys = 50\<close> the keys listed are ab, b, c; with prefix a and the empty
  marker they are a, ab, and \<^verbatim>\<open>IsTruncated\<close> is false.
\<close>

theorem start_position_by_two_searches:
  assumes "sorted a"
  shows "(let s1 = (if marker = [] then 0 else bisect_right a marker 0);
              s = start_pos a marker prefix
          in s1 \<le> s \<and> s \<le> length a \<and>
             (marker \<noteq> [] \<longrightarrow>
                (\<forall>i. i < s1 \<longrightarrow> a ! i \<le> marker) \<and>
                (\<forall>i. s1 \<le> i \<and> i < length a \<longrightarrow> marker < a ! i)) \<and>
             (prefix = [] \<longrightarrow> s = s1) \<and>
             (prefix \<noteq> [] \<longrightarrow>
                (\<forall>i. s1 \<le> i \<and> i < s \<longrightarrow> a ! i < prefix) \<and>
                (\<forall>i. s \<le> i \<and> i < length a \<longrightarrow> prefix \<le> a ! i))) \<and>
         list_keys [''b'', ''a'', ''c'', ''ab''] [] ''a'' 50 = ([''ab'', ''b'', ''c''], ''c'', False) \<and>
         list_keys [''b'', ''a'', ''c'', ''ab''] ''a'' [] 50 = ([''a'', ''ab''], ''ab'', False)"
proof (intro conjI)
  define s1 where "s1 = (if marker = [] then 0 else bisect_right a marker 0)"
  define s where "s = start_pos a marker prefix"
  have s_eq: "s = (if prefix = [] then s1 else bisect_left a prefix s1)"
    by (simp add: s_def s1_def start_pos_def Let_def)
  have r: "0 \<le> bisect_right a marker 0 \<and> bisect_right a marker 0 \<le> length a \<and>
         (\<forall>i. 0 \<le> i \<and> i < bisect_right a marker 0 \<longrightarrow> a ! i \<le> marker) \<and>
         (\<forall>i. bisect_right a marker 0 \<le> i \<and> i < length a \<longrightarrow> marker < a ! i)"
    unfolding bisect_right_def
    by (rule bisect_right_loop_spec[OF assms]) simp_all
  have s1_le: "s1 \<le> length a"
    using r by (simp add: s1_def)
  have l: "s1 \<le> bisect_left a prefix s1 \<and> bisect_left a prefix s1 \<le> length a \<and>
         (\<forall>i. s1 \<le> i \<and> i < bisect_left a prefix s1 \<longrightarrow> a ! i < prefix) \<and>
         (\<forall>i. bisect_left a prefix s1 \<le> i \<and> i < length a \<longrightarrow> prefix \<le> a ! i)"
    unfolding bisect_left_def
    by (rule bisect_left_loop_spec[OF assms s1_le]) simp
  have "s1 \<le> s \<and> s \<le> length a \<and>
             (marker \<noteq> [] \<longrightarrow>
                (\<forall>i. i < s1 \<longrightarrow> a ! i \<le> marker) \<and>
                (\<forall>i. s1 \<le> i \<and> i < length a \<longrightarrow> marker < a ! i)) \<and>
             (prefix = [] \<longrightarrow> s = s1) \<and>
             (prefix \<noteq> [] \<longrightarrow>
                (\<forall>i. s1 \<le> i \<and> i < s \<longrightarrow> a ! i < prefix) \<and>
                (\<forall>i. s \<le> i \<and> i < length a \<longrightarrow> prefix \<le> a ! i))"
  proof (intro conjI impI)
    show "s1 \<le> s" using l by (simp add: s_eq)
    show "s \<le> length a" using l s1_le by (simp add: s_eq)
  next
    assume "marker \<noteq> []"
    then have "s1 = bisect_right a marker 0" by (simp add: s1_def)
    with r show "\<forall>i. i < s1 \<longrightarrow> a ! i \<le> marker"
      and "\<forall>i. s1 \<le> i \<and> i < length a \<longrightarrow> marker < a ! i"
      by simp_all
  next
    assume "prefix = []"
    then show "s = s1" by (simp add: s_eq)
  next
    assume "prefix \<noteq> []"
    then have "s = bisect_left a prefix s1" by (simp add: s_eq)
    with l show "\<forall>i. s1 \<le> i \<and> i < s \<longrightarrow> a ! i < prefix"
      and "\<forall>i. s \<le> i \<and> i < length a \<longrightarrow> prefix \<le> a ! i"
      by simp_all
  qed
  then show "let s1 = (if marker = [] then 0 else bisect_right a marker 0);
              s = start_pos a marker prefix
          in s1 \<le> s \<and> s \<le> length a \<and>
             (marker \<noteq> [] \<longrightarrow>
                (\<forall>i. i < s1 \<longrightarrow> a ! i \<le> marker) \<and>
                (\<forall>i. s1 \<le> i \<and> i < length a \<longrightarrow> marker < a ! i)) \<and>
             (prefix = [] \<longrightarrow> s = s1) \<and>
             (prefix \<noteq> [] \<longrightarrow>
                (\<forall>i. s1 \<le> i \<and> i < s \<longrightarrow> a ! i < prefix) \<and>
                (\<forall>i. s \<le> i \<and> i < length a \<longrightarrow> prefix \<le> a ! i))"
    unfolding s1_def[symmetric] s_def[symmetric] Let_def .
next
  show "list_keys [''b'', ''a'', ''c'', ''ab''] [] ''a'' 50 = ([''ab'', ''b'', ''c''], ''c'', False)"
    by (simp add: listing_eval)
  show "list_keys [''b'', ''a'', ''c'', ''ab''] ''a'' [] 50 = ([''a'', ''ab''], ''ab'', False)"
    by (simp add: listing_eval)
qed

theorem start_position_by_two_searches_witness:
  "sorted [''a'', ''ab'', ''b'', ''c''] \<and>
   bisect_right [''a'', ''ab'', ''b'', ''c''] ''a'' 0 = 1 \<and>
   start_pos [''a'', ''ab'', ''b'', ''c''] ''a'' ''b'' = 2 \<and>
   start_pos [''a'', ''ab'', ''b'', ''c''] ''b'' ''a'' = 3 \<and>
   [''a'', ''ab'', ''b'', ''c''] ! 0 \<le> ''a'' \<and> ''a'' < [''a'', ''ab'', ''b'', ''c''] ! 1 \<and>
   [''a'', ''ab'', ''b'', ''c''] ! 1 < ''b'' \<and> ''b'' \<le> [''a'', ''ab'', ''b'', ''c''] ! 2"
proof -
  have srt: "sorted [''a'', ''ab'', ''b'', ''c'']"
    by simp
  have ev: "bisect_right [''a'', ''ab'', ''b'', ''c''] ''a'' 0 = 1"
    "start_pos [''a'', ''ab'', ''b'', ''c''] ''a'' ''b'' = 2"
    "start_pos [''a'', ''ab'', ''b'', ''c''] ''b'' ''a'' = 3"
    by (simp_all add: listing_eval)
  from start_position_by_two_searches[OF srt, of "''a''" "''b''"] srt ev show ?thesis
    by (simp add: Let_def)
qed

subsection \<open>Claim C2\<close>

text \<open>
  C2 does not hold of the code. The handlers accept a path when the bucket directory is a
  prefix of it as a string, \<^verbatim>\<open>path.startswith(bucket_dir)\<close>, and
  \<^verbatim>\<open>_object_path\<close> normalises the path only without sharding. Two requests whose path
  is not a descendant of the bucket directory and that are not rejected with
  \<^verbatim>\<open>HTTPError(403)\<close>: without sharding, the key \<^verbatim>\<open>../b2/x\<close> in bucket \<^verbatim>\<open>b\<close> resolves to
  \<^verbatim>\<open>/tmp/s3/b2/x\<close>, in the bucket \<^verbatim>\<open>b2\<close>, whose path begins with the characters of
  \<^verbatim>\<open>/tmp/s3/b\<close>, and \<^verbatim>\<open>put\<close> writes the file; with one level of sharding, the key
  \<^verbatim>\<open>../../../etc/passwd\<close> resolves to \<^verbatim>\<open>/tmp/s3/b/1f/../../../etc/passwd\<close>, which names
  \<^verbatim>\<open>/tmp/etc/passwd\<close>, and passes the checks.
\<close>

theorem path_outside_bucket_not_rejected:
  "S3Application ''/'' ''/tmp/s3'' 0 = \<lparr>directory = ''/tmp/s3'', bucket_depth = 0\<rparr> \<and>
   abspath ''/'' (join ''/tmp/s3'' [''b'']) = ''/tmp/s3/b'' \<and>
   object_path md5 ''/'' \<lparr>directory = ''/tmp/s3'', bucket_depth = 0\<rparr> ''b'' ''../b2/x'' = ''/tmp/s3/b2/x'' \<and>
   \<not> descendant ''/tmp/s3/b2/x'' ''/tmp/s3/b'' \<and>
   put md5 ''/'' \<lparr>directory = ''/tmp/s3'', bucket_depth = 0\<rparr>
       \<lparr>multipart_uploaders = [], files = [], dirs = [''/tmp/s3'', ''/tmp/s3/b'', ''/tmp/s3/b2'']\<rparr>
       ''b'' ''../b2/x'' None None ''X''
     = (\<lparr>multipart_uploaders = [], files = [''/tmp/s3/b2/x''],
         dirs = [''/tmp/s3'', ''/tmp/s3/b'', ''/tmp/s3/b2'']\<rparr>, Inr ''ignored'') \<and>
   object_path md5_table ''/'' \<lparr>directory = ''/tmp/s3'', bucket_depth = 1\<rparr> ''b'' ''../../../etc/passwd''
     = ''/tmp/s3/b/1f/../../../etc/passwd'' \<and>
   normpath ''/tmp/s3/b/1f/../../../etc/passwd'' = ''/tmp/etc/passwd'' \<and>
   \<not> descendant ''/tmp/s3/b/1f/../../../etc/passwd'' ''/tmp/s3/b'' \<and>
   checked_object_path md5_table ''/'' \<lparr>directory = ''/tmp/s3'', bucket_depth = 1\<rparr>
       \<lparr>multipart_uploaders = [], files = [], dirs = [''/tmp/s3'', ''/tmp/s3/b'']\<rparr>
       ''b'' ''../../../etc/passwd''
     = Inr ''/tmp/s3/b/1f/../../../etc/passwd''"
proof (intro conjI)
  show "S3Application ''/'' ''/tmp/s3'' 0 = \<lparr>directory = ''/tmp/s3'', bucket_depth = 0\<rparr>"
    by (simp add: S3Application_def path_eval)
  show b: "abspath ''/'' (join ''/tmp/s3'' [''b'']) = ''/tmp/s3/b''"
    by (simp add: path_eval)
  show p0: "object_path md5 ''/'' \<lparr>directory = ''/tmp/s3'', bucket_depth = 0\<rparr> ''b'' ''../b2/x'' = ''/tmp/s3/b2/x''"
    by (simp add: path_eval)
  show "\<not> descendant ''/tmp/s3/b2/x'' ''/tmp/s3/b''"
    by (simp add: descendant_def path_eval)
  show "put md5 ''/'' \<lparr>directory = ''/tmp/s3'', bucket_depth = 0\<rparr>
       \<lparr>multipart_uploaders = [], files = [], dirs = [''/tmp/s3'', ''/tmp/s3/b'', ''/tmp/s3/b2'']\<rparr>
       ''b'' ''../b2/x'' None None ''X''
     = (\<lparr>multipart_uploaders = [], files = [''/tmp/s3/b2/x''],
         dirs = [''/tmp/s3'', ''/tmp/s3/b'', ''/tmp/s3/b2'']\<rparr>, Inr ''ignored'')"
    by (simp add: put_def checked_object_path_def b p0 handler_eval startswith_def dirname_def Let_def)
  show p1: "object_path md5_table ''/'' \<lparr>directory = ''/tmp/s3'', bucket_depth = 1\<rparr> ''b'' ''../../../etc/passwd''
     = ''/tmp/s3/b/1f/../../../etc/passwd''"
    by (simp add: path_eval md5_table_def)
  show "normpath ''/tmp/s3/b/1f/../../../etc/passwd'' = ''/tmp/etc/passwd''"
    by (simp add: path_eval)
  show "\<not> descendant ''/tmp/s3/b/1f/../../../etc/passwd'' ''/tmp/s3/b''"
    by (simp add: descendant_def path_eval)
  show "checked_object_path md5_table ''/'' \<lparr>directory = ''/tmp/s3'', bucket_depth = 1\<rparr>
       \<lparr>multipart_uploaders = [], files = [], dirs = [''/tmp/s3'', ''/tmp/s3/b'']\<rparr>
       ''b'' ''../../../etc/passwd''
     = Inr ''/tmp/s3/b/1f/../../../etc/passwd''"
    by (simp add: checked_object_path_def b p1 isdir_def startswith_def Let_def)
qed

theorem path_outside_bucket_not_rejected_witness:
  "isfile (fst (put md5_table ''/'' \<lparr>directory = ''/tmp/s3'', bucket_depth = 0\<rparr>
                  \<lparr>multipart_uploaders = [], files = [],
                   dirs = [''/tmp/s3'', ''/tmp/s3/b'', ''/tmp/s3/b2'']\<rparr>
                  ''b'' ''../b2/x'' None None ''X'')) ''/tmp/s3/b2/x'' \<and>
   \<not> descendant ''/tmp/s3/b2/x'' ''/tmp/s3/b''"
  using path_outside_bucket_not_rejected[of md5_table]
  by (simp add: isfile_def)

subsection \<open>Paths of stored keys\<close>

text \<open>
  Splitting at slashes and joining with slashes, the normalisation of a path extended by a
  key, and the length of the shard directories.
\<close>

lemma split_slash_nonempty: "split_slash s \<noteq> []"
  by (induction s) (auto split: list.splits)

lemma split_slash_append:
  "split_slash (a @ CHR ''/'' # b) = split_slash a @ split_slash b"
proof (induction a)
  case Nil
  show ?case by simp
next
  case (Cons c a)
  obtain x xs where x: "split_slash a = x # xs"
    using split_slash_nonempty[of a] by (cases "split_slash a") auto
  show ?case
    by (simp add: Cons.IH x)
qed

lemma join_slash_Cons: "ys \<noteq> [] \<Longrightarrow> join_slash (x # ys) = x @ ''/'' @ join_slash ys"
  by (cases ys) simp_all

lemma join_slash_append:
  "xs \<noteq> [] \<Longrightarrow> ys \<noteq> [] \<Longrightarrow> join_slash (xs @ ys) = join_slash xs @ ''/'' @ join_slash ys"
proof (induction xs)
  case Nil
  then show ?case by simp
next
  case (Cons x xs)
  show ?case
  proof (cases "xs = []")
    case True
    with Cons.prems show ?thesis by (simp add: join_slash_Cons)
  next
    case False
    with Cons show ?thesis by (simp add: join_slash_Cons)
  qed
qed

lemma join_slash_split_slash: "join_slash (split_slash s) = s"
proof (induction s)
  case Nil
  show ?case by simp
next
  case (Cons c s)
  obtain x xs where x: "split_slash s = x # xs"
    using split_slash_nonempty[of s] by (cases "split_slash s") auto
  show ?case
  proof (cases "c = CHR ''/''")
    case True
    with Cons show ?thesis by (simp add: join_slash_Cons split_slash_nonempty)
  next
    case False
    with Cons x show ?thesis by (cases xs) simp_all
  qed
qed

lemma foldl_norm_step_clean:
  "[] \<notin> set ks \<Longrightarrow> ''.'' \<notin> set ks \<Longrightarrow> ''..'' \<notin> set ks \<Longrightarrow>
   foldl (norm_step i) acc ks = acc @ ks"
  by (induction ks arbitrary: acc) (auto simp: norm_step_def)

lemma startswith_slash: "startswith s ''/'' \<longleftrightarrow> s \<noteq> [] \<and> hd s = CHR ''/''"
  by (cases s) (auto simp: startswith_def)

lemma endswith_slash: "endswith s ''/'' \<longleftrightarrow> s \<noteq> [] \<and> last s = CHR ''/''"
  by (cases s rule: rev_cases) (auto simp: endswith_def)

lemma clean_key_head: "clean_key k \<Longrightarrow> k \<noteq> [] \<and> hd k \<noteq> CHR ''/''"
  by (cases k) (auto simp: clean_key_def)

lemma initial_slashes_append:
  assumes "y \<noteq> []" and "last y \<noteq> CHR ''/'' \<or> (z \<noteq> [] \<and> hd z \<noteq> CHR ''/'')"
  shows "initial_slashes (y @ z) = initial_slashes y"
proof (cases y)
  case Nil
  with assms show ?thesis by simp
next
  case y1: (Cons a y1)
  show ?thesis
  proof (cases y1)
    case Nil
    with y1 assms show ?thesis
      by (cases z) (auto simp: initial_slashes_def startswith_def)
  next
    case y2: (Cons b y2)
    show ?thesis
    proof (cases y2)
      case Nil
      with y1 y2 assms show ?thesis
        by (cases z) (auto simp: initial_slashes_def startswith_def)
    next
      case (Cons c y3)
      with y1 y2 show ?thesis
        by (auto simp: initial_slashes_def startswith_def)
    qed
  qed
qed


lemma normpath_join_step_clean:
  assumes k: "clean_key k"
    and nd: "normpath y \<noteq> ''.''" and ne: "\<not> endswith (normpath y) ''/''"
  shows "normpath (join_step y k) = normpath y @ ''/'' @ k"
proof -
  from clean_key_head[OF k] obtain c k' where kc: "k = c # k'" "c \<noteq> CHR ''/''"
    by (cases k) auto
  have y: "y \<noteq> []"
    using nd by (auto simp: normpath_def)
  define i where "i = initial_slashes y"
  define cs where "cs = foldl (norm_step i) [] (split_slash y)"
  have "normpath y = (if replicate i CHR ''/'' @ join_slash cs = [] then ''.''
                      else replicate i CHR ''/'' @ join_slash cs)"
    using y unfolding normpath_def Let_def i_def cs_def by (simp only: if_False)
  with nd have ny: "normpath y = replicate i CHR ''/'' @ join_slash cs"
    by (cases "replicate i CHR ''/'' @ join_slash cs = []") simp_all
  have cs: "cs \<noteq> []"
  proof
    assume "cs = []"
    with ny have "normpath y = replicate i CHR ''/''" by simp
    moreover have "i = 0 \<or> i = 1 \<or> i = 2"
      by (auto simp: i_def initial_slashes_def)
    ultimately have "normpath y = [] \<or> normpath y = ''/'' \<or> normpath y = ''//''"
      by (auto simp: numeral_2_eq_2)
    moreover have "normpath y \<noteq> []"
      by (auto simp: normpath_def Let_def)
    ultimately show False
      using ne by (auto simp: endswith_def)
  qed
  have ks: "foldl (norm_step i) acc (split_slash k) = acc @ split_slash k" for acc
    using k by (intro foldl_norm_step_clean) (simp_all add: clean_key_def)
  have x: "join_step y k \<noteq> [] \<and> initial_slashes (join_step y k) = i \<and>
           foldl (norm_step i) [] (split_slash (join_step y k)) = cs @ split_slash k"
  proof (cases "last y = CHR ''/''")
    case True
    then obtain y' where y': "y = y' @ ''/''"
      using y by (cases y rule: rev_cases) auto
    have j: "join_step y k = y' @ CHR ''/'' # k"
      using kc y' by (simp add: join_step_def startswith_slash endswith_slash)
    have i: "initial_slashes (y' @ CHR ''/'' # k) = i"
      using initial_slashes_append[of y k] y kc by (simp add: i_def y')
    have c: "foldl (norm_step i) [] (split_slash y') = cs"
      using split_slash_append[of y' "[]"] by (simp add: cs_def y' norm_step_def)
    have "foldl (norm_step i) [] (split_slash (y' @ CHR ''/'' # k)) = cs @ split_slash k"
      by (simp only: split_slash_append foldl_append c ks)
    with i show ?thesis
      by (simp only: j) simp
  next
    case False
    have j: "join_step y k = y @ CHR ''/'' # k"
      using kc y False by (simp add: join_step_def startswith_slash endswith_slash)
    have i: "initial_slashes (y @ CHR ''/'' # k) = i"
      using initial_slashes_append[of y "CHR ''/'' # k"] y False by (simp add: i_def)
    have "foldl (norm_step i) [] (split_slash (y @ CHR ''/'' # k)) = cs @ split_slash k"
      by (simp only: split_slash_append foldl_append cs_def[symmetric] ks)
    with i show ?thesis
      by (simp only: j) simp
  qed
  have "normpath (join_step y k) = replicate i CHR ''/'' @ join_slash (cs @ split_slash k)"
    using x cs by (simp add: normpath_def Let_def join_slash_append split_slash_nonempty)
  also have "\<dots> = normpath y @ ''/'' @ k"
    using cs by (simp add: ny join_slash_append split_slash_nonempty join_slash_split_slash)
  finally show ?thesis .
qed

lemma abspath_join_step:
  assumes "k \<noteq> []" "hd k \<noteq> CHR ''/''"
  shows "(if isabs (join_step j k) then join_step j k else join cwd [join_step j k]) =
         join_step (if isabs j then j else join cwd [j]) k"
proof -
  have s: "\<not> startswith k ''/''"
    using assms by (simp add: startswith_slash)
  show ?thesis
  proof (cases "j = []")
    case True
    then show ?thesis
      using assms s by (auto simp: join_def join_step_def isabs_def startswith_slash endswith_slash)
  next
    case False
    show ?thesis
    proof (cases "hd j = CHR ''/''")
      case True
      with False show ?thesis
        using assms s by (auto simp: join_def join_step_def isabs_def startswith_slash endswith_slash)
    next
      case nonabs: False
      with False show ?thesis
        using assms s by (auto simp: join_def join_step_def isabs_def startswith_slash endswith_slash)
    qed
  qed
qed

lemma object_path_unsharded:
  assumes "bucket_depth app < 1" and "clean_key k"
    and "abspath cwd (join (directory app) [bucket]) \<noteq> ''.''"
    and "\<not> endswith (abspath cwd (join (directory app) [bucket])) ''/''"
  shows "object_path md5 cwd app bucket k = abspath cwd (join (directory app) [bucket]) @ ''/'' @ k"
proof -
  let ?j = "join_step (directory app) bucket"
  let ?y = "if isabs ?j then ?j else join cwd [?j]"
  have k: "k \<noteq> []" "hd k \<noteq> CHR ''/''"
    using clean_key_head[OF assms(2)] by simp_all
  have b: "abspath cwd (join (directory app) [bucket]) = normpath ?y"
    by (simp add: abspath_def join_def)
  have "object_path md5 cwd app bucket k =
          normpath (if isabs (join_step ?j k) then join_step ?j k else join cwd [join_step ?j k])"
    using assms(1) by (simp add: object_path_def abspath_def join_def)
  also have "\<dots> = normpath (join_step ?y k)"
    by (simp only: abspath_join_step[OF k])
  also have "\<dots> = normpath ?y @ ''/'' @ k"
    using assms(3,4) unfolding b by (intro normpath_join_step_clean[OF assms(2)])
  finally show ?thesis
    by (simp only: b)
qed


lemma foldl_add_shift:
  "foldl (\<lambda>s i. s + g i) (a + b) xs = foldl (\<lambda>s i. s + g i) a xs + (b::nat)"
proof (induction xs arbitrary: a)
  case Nil
  show ?case by simp
next
  case (Cons x xs)
  have e: "a + b + g x = a + g x + b"
    by simp
  show ?case
    unfolding foldl_Cons e by (rule Cons.IH)
qed

lemma normpath_nonempty: "normpath p \<noteq> []"
  by (auto simp: normpath_def Let_def)

lemma shard_directory:
  assumes "p0 \<noteq> []" and "last p0 \<noteq> CHR ''/''"
    and "2 * d \<le> length h" and "CHR ''/'' \<notin> set h"
  shows "foldl (\<lambda>p i. join p [take (2 * (i + 1)) h]) p0 [0..<d] \<noteq> [] \<and>
         last (foldl (\<lambda>p i. join p [take (2 * (i + 1)) h]) p0 [0..<d]) \<noteq> CHR ''/'' \<and>
         length (foldl (\<lambda>p i. join p [take (2 * (i + 1)) h]) p0 [0..<d]) =
           foldl (\<lambda>s i. s + (2 * (i + 1) + 1)) (length p0) [0..<d]"
  using assms(3)
proof (induction d)
  case 0
  from assms(1,2) show ?case by simp
next
  case (Suc d)
  let ?p = "foldl (\<lambda>p i. join p [take (2 * (i + 1)) h]) p0 [0..<d]"
  let ?c = "take (2 * (d + 1)) h"
  from Suc have IH: "?p \<noteq> []" "last ?p \<noteq> CHR ''/''"
    "length ?p = foldl (\<lambda>s i. s + (2 * (i + 1) + 1)) (length p0) [0..<d]"
    by simp_all
  have c: "?c \<noteq> []" "length ?c = 2 * (d + 1)" "set ?c \<subseteq> set h"
    using Suc.prems by (auto dest: in_set_takeD)
  have "hd ?c \<in> set ?c" "last ?c \<in> set ?c"
    by (rule hd_in_set[OF c(1)], rule last_in_set[OF c(1)])
  with c(3) assms(4) have hl: "hd ?c \<noteq> CHR ''/''" "last ?c \<noteq> CHR ''/''"
    by auto
  have j: "join ?p [?c] = ?p @ ''/'' @ ?c"
    using IH(1,2) hl(1) c(1) by (simp add: join_def join_step_def startswith_slash endswith_slash)
  have "foldl (\<lambda>p i. join p [take (2 * (i + 1)) h]) p0 [0..<Suc d] = ?p @ ''/'' @ ?c"
    using j by simp
  moreover have "foldl (\<lambda>s i. s + (2 * (i + 1) + 1)) (length p0) [0..<Suc d] =
                 length ?p + (2 * (d + 1) + 1)"
    by (simp only: upt_Suc_append[OF le0] foldl_append foldl_Cons foldl_Nil IH(3))
  ultimately show ?case
    using c(1,2) hl(2) by simp
qed

lemma object_path_sharded:
  assumes "1 \<le> bucket_depth app" and "\<not> startswith k ''/''"
    and "\<not> endswith (abspath cwd (join (directory app) [bucket])) ''/''"
    and "2 * nat (bucket_depth app) \<le> length (md5 k)" and "CHR ''/'' \<notin> set (md5 k)"
  shows "strip_shard_prefix app (abspath cwd (join (directory app) [bucket]))
           (object_path md5 cwd app bucket k) = k"
proof -
  let ?b = "abspath cwd (join (directory app) [bucket])"
  let ?p = "foldl (\<lambda>p i. join p [take (2 * (i + 1)) (md5 k)]) ?b [0..<nat (bucket_depth app)]"
  have b0: "?b \<noteq> []"
    unfolding abspath_def by (rule normpath_nonempty)
  with assms(3) have b1: "last ?b \<noteq> CHR ''/''"
    by (simp add: endswith_slash)
  note sd = shard_directory[OF b0 b1 assms(4,5)]
  have "object_path md5 cwd app bucket k = join ?p [k]"
    using assms(1) by (simp add: object_path_def Let_def)
  also have "\<dots> = ?p @ ''/'' @ k"
    using sd assms(2) by (simp add: join_def join_step_def endswith_slash)
  finally have o: "object_path md5 cwd app bucket k = ?p @ ''/'' @ k" .
  have "skip app ?b = length ?p + 1"
    using sd foldl_add_shift[of "\<lambda>i. 2 * (i + 1) + 1" "length ?b" 1 "[0..<nat (bucket_depth app)]"]
    by (simp add: skip_def)
  with o show ?thesis
    by (simp add: strip_shard_prefix_def)
qed

subsection \<open>Claim C3\<close>

text \<open>
  C3, as the claim states it for every key and every depth, fails. Without sharding the
  path is normalised, so the key \<^verbatim>\<open>a/../b\<close> is stored at the path of the key \<^verbatim>\<open>b\<close> and the
  listing gives \<^verbatim>\<open>b\<close>. With depth 17 the last shard directory has the 32 characters of the
  digest, not the 34 that the listing skips, and of the key \<^verbatim>\<open>abc\<close> the listing gives \<^verbatim>\<open>c\<close>.
\<close>

theorem round_trip_of_every_key_counterexample:
  "strip_shard_prefix \<lparr>directory = ''/tmp/s3'', bucket_depth = 0\<rparr>
     (abspath ''/'' (join ''/tmp/s3'' [''b'']))
     (object_path md5_table ''/'' \<lparr>directory = ''/tmp/s3'', bucket_depth = 0\<rparr> ''b'' ''a/../b'') = ''b'' \<and>
   strip_shard_prefix \<lparr>directory = ''/tmp/s3'', bucket_depth = 17\<rparr>
     (abspath ''/'' (join ''/tmp/s3'' [''b'']))
     (object_path md5_table ''/'' \<lparr>directory = ''/tmp/s3'', bucket_depth = 17\<rparr> ''b'' ''abc'') = ''c''"
proof
  show "strip_shard_prefix \<lparr>directory = ''/tmp/s3'', bucket_depth = 0\<rparr>
     (abspath ''/'' (join ''/tmp/s3'' [''b'']))
     (object_path md5_table ''/'' \<lparr>directory = ''/tmp/s3'', bucket_depth = 0\<rparr> ''b'' ''a/../b'') = ''b''"
    by (simp add: strip_shard_prefix_def skip_def path_eval)
  show "strip_shard_prefix \<lparr>directory = ''/tmp/s3'', bucket_depth = 17\<rparr>
     (abspath ''/'' (join ''/tmp/s3'' [''b'']))
     (object_path md5_table ''/'' \<lparr>directory = ''/tmp/s3'', bucket_depth = 17\<rparr> ''b'' ''abc'') = ''c''"
    by code_simp
qed

text \<open>
  C3, amended. Let the bucket directory, \<open>bucket_dir\<close>, be neither \<^verbatim>\<open>.\<close> nor end with a slash
  (it is not the root). Without sharding (depth below 1), for every key that is a
  normalised relative path, and with sharding, for every key that does not begin with a
  slash, when the digest of the key has at least twice the depth in characters and no slash
  (a hexadecimal digest of 32 characters and a depth of at most 16): removing the first
  \<open>skip\<close> characters from the path of the key, that is the length of the bucket directory
  plus one and \<open>2 * (i + 1) + 1\<close> for each shard level \<open>i\<close>, yields the key again.
\<close>

theorem stored_key_round_trip:
  assumes "bucket_dir = abspath cwd (join (directory app) [bucket])"
    and "bucket_dir \<noteq> ''.''" and "\<not> endswith bucket_dir ''/''"
    and "bucket_depth app < 1 \<longrightarrow> clean_key k"
    and "1 \<le> bucket_depth app \<longrightarrow>
           \<not> startswith k ''/'' \<and> 2 * nat (bucket_depth app) \<le> length (md5 k) \<and>
           CHR ''/'' \<notin> set (md5 k)"
  shows "strip_shard_prefix app bucket_dir (object_path md5 cwd app bucket k) = k"
proof (cases "bucket_depth app < 1")
  case True
  with assms(4) have k: "clean_key k" by simp
  have "object_path md5 cwd app bucket k = bucket_dir @ ''/'' @ k"
    using assms(2,3) unfolding assms(1) by (intro object_path_unsharded[OF True k])
  moreover have "skip app bucket_dir = length bucket_dir + 1"
    using True by (simp add: skip_def)
  ultimately show ?thesis
    by (simp add: strip_shard_prefix_def)
next
  case False
  with assms(5) have h: "1 \<le> bucket_depth app" "\<not> startswith k ''/''"
    "2 * nat (bucket_depth app) \<le> length (md5 k)" "CHR ''/'' \<notin> set (md5 k)"
    by simp_all
  show ?thesis
    using assms(3) unfolding assms(1)
    by (intro object_path_sharded[of app k cwd bucket md5, OF h(1,2) _ h(3,4)])
qed

theorem stored_key_round_trip_witness:
  "strip_shard_prefix \<lparr>directory = ''/tmp/s3'', bucket_depth = 0\<rparr> ''/tmp/s3/b''
     (object_path md5_table ''/'' \<lparr>directory = ''/tmp/s3'', bucket_depth = 0\<rparr> ''b'' ''x/y'') = ''x/y'' \<and>
   object_path md5_table ''/'' \<lparr>directory = ''/tmp/s3'', bucket_depth = 0\<rparr> ''b'' ''x/y'' = ''/tmp/s3/b/x/y'' \<and>
   strip_shard_prefix \<lparr>directory = ''/tmp/s3'', bucket_depth = 2\<rparr> ''/tmp/s3/b''
     (object_path md5_table ''/'' \<lparr>directory = ''/tmp/s3'', bucket_depth = 2\<rparr> ''b'' ''a'') = ''a'' \<and>
   object_path md5_table ''/'' \<lparr>directory = ''/tmp/s3'', bucket_depth = 2\<rparr> ''b'' ''a'' = ''/tmp/s3/b/0c/0cc1/a''"
proof -
  let ?app0 = "\<lparr>directory = ''/tmp/s3'', bucket_depth = 0\<rparr>"
  let ?app2 = "\<lparr>directory = ''/tmp/s3'', bucket_depth = 2\<rparr>"
  have b0: "''/tmp/s3/b'' = abspath ''/'' (join (directory ?app0) [''b''])"
    and b2: "''/tmp/s3/b'' = abspath ''/'' (join (directory ?app2) [''b''])"
    by (simp_all add: path_eval)
  have n: "''/tmp/s3/b'' \<noteq> ''.''"
    by simp
  have e: "\<not> endswith ''/tmp/s3/b'' ''/''"
    by (simp add: endswith_def)
  have c0: "bucket_depth ?app0 < 1 \<longrightarrow> clean_key ''x/y''"
    by (simp add: clean_key_def)
  have m0: "1 \<le> bucket_depth ?app0 \<longrightarrow>
           \<not> startswith ''x/y'' ''/'' \<and> 2 * nat (bucket_depth ?app0) \<le> length (md5_table ''x/y'') \<and>
           CHR ''/'' \<notin> set (md5_table ''x/y'')"
    by simp
  have c2: "bucket_depth ?app2 < 1 \<longrightarrow> clean_key ''a''"
    by simp
  have m2: "1 \<le> bucket_depth ?app2 \<longrightarrow>
           \<not> startswith ''a'' ''/'' \<and> 2 * nat (bucket_depth ?app2) \<le> length (md5_table ''a'') \<and>
           CHR ''/'' \<notin> set (md5_table ''a'')"
    by (simp add: startswith_def md5_table_def)
  have o: "object_path md5_table ''/'' ?app0 ''b'' ''x/y'' = ''/tmp/s3/b/x/y''"
    "object_path md5_table ''/'' ?app2 ''b'' ''a'' = ''/tmp/s3/b/0c/0cc1/a''"
    by (simp_all add: path_eval md5_table_def numeral_2_eq_2)
  from stored_key_round_trip[of "''/tmp/s3/b''" "''/''" ?app0 "''b''" "''x/y''" md5_table, OF b0 n e c0 m0]
       stored_key_round_trip[of "''/tmp/s3/b''" "''/''" ?app2 "''b''" "''a''" md5_table, OF b2 n e c2 m2] o
  show ?thesis
    by simp
qed

end
